theory Spec2Isabelle
  imports Main "HOL-Library.AList" "HOL-Library.Sublist" "HOL-Library.Char_ord" "HOL-Library.List_Lexorder"
begin

section \<open>Python values used by the handlers\<close>

text \<open>
  The module \<^verbatim>\<open>bdi_api/s4/exercise.py\<close> has two request handlers,
  \<^verbatim>\<open>download_data\<close> and \<^verbatim>\<open>prepare_data\<close>, and two helpers. Python's \<^verbatim>\<open>int\<close> is
  \<^typ>\<open>int\<close>, \<^verbatim>\<open>str\<close> is \<^typ>\<open>string\<close>, an exception is a value of \<open>error\<close>
  returned on the left of a sum.
\<close>

datatype error =
    ValueError string
  | HTTPError int
  | RequestException
  | ClientError string
  | FileNotFoundError
  | NotADirectoryError
  | FileExistsError
  | IsADirectoryError
  | OSError
  | PrepareError string

subsection \<open>Formatting integers\<close>

definition digit_char :: "nat \<Rightarrow> char" where
  "digit_char d = ''0123456789'' ! d"

function str_nat :: "nat \<Rightarrow> string" where
  "str_nat n = (if n < 10 then [digit_char n] else str_nat (n div 10) @ [digit_char (n mod 10)])"
  by pat_completeness auto
termination
  by (relation "measure (\<lambda>n. n)") auto

declare str_nat.simps [simp del]

text \<open>\<^verbatim>\<open>str(i)\<close>, as the f-string \<^verbatim>\<open>f"{uploaded}"\<close> prints it.\<close>

definition str_int :: "int \<Rightarrow> string" where
  "str_int i = (if i < 0 then ''-'' @ str_nat (nat (- i)) else str_nat (nat i))"

text \<open>
  The format \<^verbatim>\<open>{i:02d}\<close>: decimal, padded with zeros after the sign up to a
  total width of two characters.
\<close>

definition fmt_02d :: "int \<Rightarrow> string" where
  "fmt_02d i =
     (if i < 0 then ''-'' @ str_nat (nat (- i))
      else (let s = str_nat (nat i) in if length s < 2 then ''0'' @ s else s))"

text \<open>\<^verbatim>\<open>range(start, stop, step)\<close> for a positive step.\<close>

definition py_range :: "int \<Rightarrow> int \<Rightarrow> int \<Rightarrow> int list" where
  "py_range start stop step =
     map (\<lambda>i. start + step * int i) [0 ..< nat ((stop - start + step - 1) div step)]"

section \<open>Constants of the module\<close>

definition DAY :: string where
  "DAY = ''20231101''"

definition REMOTE_DATE_PATH :: string where
  "REMOTE_DATE_PATH = ''2023/11/01''"

definition S3_PREFIX :: string where
  "S3_PREFIX = ''raw/day='' @ DAY @ ''/''"

section \<open>The filename generator\<close>

definition readsb_filename :: "int \<Rightarrow> string" where
  "readsb_filename sec =
     (let hh = sec div 3600;
          mm = (sec mod 3600) div 60;
          ss = sec mod 60
      in fmt_02d hh @ fmt_02d mm @ fmt_02d ss @ ''Z.json.gz'')"

definition generate_readsb_filenames_every_5s :: "string list" where
  "generate_readsb_filenames_every_5s = map readsb_filename (py_range 0 (24 * 60 * 60) 5)"

section \<open>The world outside the process\<close>

text \<open>
  The handlers talk to three things: the remote archive (HTTP), the object storage
  (S3, through boto3) and the local file system. Each is a field of the record
  \<open>world\<close>, and every call that reaches one of them appends an \<open>event\<close> to the
  field \<open>trace\<close>, so that a statement can say which calls were made and in which order.

  \<^item> \<open>http_head url\<close> is what \<^verbatim>\<open>session.head(url)\<close> gives: a status code, or an
    exception of the transport (no connection, timeout).
  \<^item> \<open>http_get url\<close> is what \<^verbatim>\<open>session.get(url, stream=True)\<close> gives: a status code
    and the raw body, or an exception of the transport.
  \<^item> \<open>s3 bucket\<close> is the content of a bucket, a list of pairs of key and body, or
    \<open>None\<close> when there is no such bucket.
  \<^item> \<open>fs\<close> maps the absolute path of every existing file and directory, as the list of
    its components, to what is there; the root \<open>[]\<close> is always a directory.
    Symbolic links and permissions are left out.
  \<^item> \<open>cwd\<close> is the working directory, where relative paths start.

  Making a \<^verbatim>\<open>boto3\<close> client, a paginator or a \<^verbatim>\<open>requests.Session\<close> reaches none of
  them and is not an event.
\<close>

datatype node = Dir | File string

type_synonym filesystem = "string list \<rightharpoonup> node"

text \<open>A \<^verbatim>\<open>pathlib.Path\<close>: whether it is absolute, and its parts after the root.\<close>

type_synonym ppath = "bool \<times> string list"

datatype event =
    HttpHead string
  | HttpGet string
  | S3Upload string string
  | S3List string string
  | S3Download string string ppath
  | FsExists ppath
  | FsRmtree ppath
  | FsMkdir ppath

record world =
  http_head :: "string \<Rightarrow> error + int"
  http_get :: "string \<Rightarrow> error + int \<times> string"
  s3 :: "string \<rightharpoonup> (string \<times> string) list"
  fs :: filesystem
  cwd :: "string list"
  trace :: "event list"

text \<open>
  The settings object of \<^verbatim>\<open>bdi_api.settings\<close>, whose class is not part of the
  sources at hand: the three fields the handlers read. An unset bucket is \<open>None\<close> or
  the empty string; Python's \<^verbatim>\<open>not s3_bucket\<close> is true of both.
\<close>

record settings =
  s3_bucket :: "string option"
  source_url :: string
  raw_dir :: string

definition log :: "event \<Rightarrow> world \<Rightarrow> world" where
  "log e w = w\<lparr>trace := trace w @ [e]\<rparr>"

subsection \<open>HTTP\<close>

definition session_head :: "string \<Rightarrow> world \<Rightarrow> (error + int) \<times> world" where
  "session_head url w = (http_head w url, log (HttpHead url) w)"

definition session_get :: "string \<Rightarrow> world \<Rightarrow> (error + int \<times> string) \<times> world" where
  "session_get url w = (http_get w url, log (HttpGet url) w)"

text \<open>\<^verbatim>\<open>Response.raise_for_status\<close> raises on the codes 400 to 599.\<close>

definition raise_for_status :: "int \<Rightarrow> error + unit" where
  "raise_for_status status_code =
     (if 400 \<le> status_code \<and> status_code < 600 then Inl (HTTPError status_code) else Inr ())"

subsection \<open>Object storage\<close>

text \<open>\<^verbatim>\<open>s3.upload_fileobj(body, bucket, key)\<close>: the object is created or replaced.\<close>

definition upload_fileobj :: "string \<Rightarrow> string \<Rightarrow> string \<Rightarrow> world \<Rightarrow> (error + unit) \<times> world" where
  "upload_fileobj body bucket key w =
     (let w1 = log (S3Upload bucket key) w
      in case s3 w bucket of
           None \<Rightarrow> (Inl (ClientError ''NoSuchBucket''), w1)
         | Some objs \<Rightarrow> (Inr (), w1\<lparr>s3 := (s3 w)(bucket \<mapsto> AList.update key body objs)\<rparr>))"

record s3_object =
  Key :: string

text \<open>A page of a listing is a dictionary; the entry \<^verbatim>\<open>Contents\<close> is absent when the
  page has no object.\<close>

record page =
  Contents :: "s3_object list option"

definition page_get_contents :: "page \<Rightarrow> s3_object list" where
  "page_get_contents pg = (case Contents pg of None \<Rightarrow> [] | Some objs \<Rightarrow> objs)"

function chunks :: "nat \<Rightarrow> 'a list \<Rightarrow> 'a list list" where
  "chunks n xs = (if n = 0 \<or> xs = [] then [] else take n xs # chunks n (drop n xs))"
  by pat_completeness auto
termination
  by (relation "measure (\<lambda>(n, xs). length xs)") auto

declare chunks.simps [simp del]

text \<open>
  \<^verbatim>\<open>list_objects_v2\<close> through a paginator: the keys that start with the prefix, in
  ascending order of their bytes, at most 1000 to a page; a listing with no key is one
  page without \<^verbatim>\<open>Contents\<close>.
\<close>

definition listed_keys :: "(string \<times> string) list \<Rightarrow> string \<Rightarrow> string list" where
  "listed_keys objs pfx = sort (remdups (filter (prefix pfx) (map fst objs)))"

definition list_objects_v2_pages :: "(string \<times> string) list \<Rightarrow> string \<Rightarrow> page list" where
  "list_objects_v2_pages objs pfx =
     (let keys = listed_keys objs pfx
      in if keys = [] then [\<lparr>Contents = None\<rparr>]
         else map (\<lambda>ks. \<lparr>Contents = Some (map (\<lambda>k. \<lparr>Key = k\<rparr>) ks)\<rparr>) (chunks 1000 keys))"

definition paginate :: "string \<Rightarrow> string \<Rightarrow> world \<Rightarrow> (error + page list) \<times> world" where
  "paginate bucket pfx w =
     (let w1 = log (S3List bucket pfx) w
      in case s3 w bucket of
           None \<Rightarrow> (Inl (ClientError ''NoSuchBucket''), w1)
         | Some objs \<Rightarrow> (Inr (list_objects_v2_pages objs pfx), w1))"

subsection \<open>Paths\<close>

fun split_on :: "char \<Rightarrow> string \<Rightarrow> string list" where
  "split_on d [] = [[]]"
| "split_on d (c # cs) =
     (if c = d then [] # split_on d cs
      else (case split_on d cs of [] \<Rightarrow> [[c]] | x # xs \<Rightarrow> (c # x) # xs))"

text \<open>
  \<^verbatim>\<open>Path(s)\<close> on POSIX: absolute when \<open>s\<close> starts with a slash; empty parts and
  the part \<^verbatim>\<open>.\<close> are dropped, \<^verbatim>\<open>..\<close> is kept.
\<close>

definition parse_path :: "string \<Rightarrow> ppath" where
  "parse_path s =
     (take 1 s = ''/'', filter (\<lambda>c. c \<noteq> [] \<and> c \<noteq> ''.'') (split_on (CHR ''/'') s))"

text \<open>\<^verbatim>\<open>a / b\<close>: an absolute right operand replaces the left one.\<close>

definition path_join :: "ppath \<Rightarrow> ppath \<Rightarrow> ppath" where
  "path_join a b = (if fst b then b else (fst a, snd a @ snd b))"

definition path_parent :: "ppath \<Rightarrow> ppath" where
  "path_parent p = (fst p, butlast (snd p))"

definition endswith_slash :: "string \<Rightarrow> bool" where
  "endswith_slash key = (key \<noteq> [] \<and> last key = CHR ''/'')"

subsection \<open>The file system\<close>

definition node_at :: "filesystem \<Rightarrow> string list \<Rightarrow> node option" where
  "node_at f p = (if p = [] then Some Dir else f p)"

definition check_dir :: "filesystem \<Rightarrow> string list \<Rightarrow> error + unit" where
  "check_dir f p =
     (case node_at f p of
        None \<Rightarrow> Inl FileNotFoundError
      | Some (File _) \<Rightarrow> Inl NotADirectoryError
      | Some Dir \<Rightarrow> Inr ())"

definition step :: "string list \<Rightarrow> string \<Rightarrow> string list" where
  "step cur c = (if c = ''..'' then butlast cur else cur @ [c])"

text \<open>
  The kernel walks a path one component at a time; every place it passes through must
  be a directory.
\<close>

fun walk_dirs :: "filesystem \<Rightarrow> string list \<Rightarrow> string list \<Rightarrow> error + string list" where
  "walk_dirs f cur [] = (case check_dir f cur of Inl e \<Rightarrow> Inl e | Inr _ \<Rightarrow> Inr cur)"
| "walk_dirs f cur (c # cs) =
     (case check_dir f cur of Inl e \<Rightarrow> Inl e | Inr _ \<Rightarrow> walk_dirs f (step cur c) cs)"

definition start_of :: "string list \<Rightarrow> ppath \<Rightarrow> string list" where
  "start_of wd p = (if fst p then [] else wd)"

text \<open>Where a path leads; the place itself need not exist.\<close>

definition resolve :: "filesystem \<Rightarrow> string list \<Rightarrow> ppath \<Rightarrow> error + string list" where
  "resolve f wd p =
     (if snd p = [] then Inr (start_of wd p)
      else case walk_dirs f (start_of wd p) (butlast (snd p)) of
             Inl e \<Rightarrow> Inl e
           | Inr d \<Rightarrow> Inr (step d (last (snd p))))"

text \<open>\<^verbatim>\<open>Path.exists\<close> and \<^verbatim>\<open>Path.is_dir\<close> answer \<^verbatim>\<open>False\<close> where the walk fails.\<close>

definition fs_exists :: "filesystem \<Rightarrow> string list \<Rightarrow> ppath \<Rightarrow> bool" where
  "fs_exists f wd p = (case resolve f wd p of Inl _ \<Rightarrow> False | Inr q \<Rightarrow> node_at f q \<noteq> None)"

definition fs_is_dir :: "filesystem \<Rightarrow> string list \<Rightarrow> ppath \<Rightarrow> bool" where
  "fs_is_dir f wd p = (case resolve f wd p of Inl _ \<Rightarrow> False | Inr q \<Rightarrow> node_at f q = Some Dir)"

text \<open>\<^verbatim>\<open>os.mkdir\<close>: the parent must be a directory and the name must be free.\<close>

definition os_mkdir :: "filesystem \<Rightarrow> string list \<Rightarrow> ppath \<Rightarrow> error + filesystem" where
  "os_mkdir f wd p =
     (if snd p = [] then
        (case node_at f (start_of wd p) of None \<Rightarrow> Inl FileNotFoundError | Some _ \<Rightarrow> Inl FileExistsError)
      else case walk_dirs f (start_of wd p) (butlast (snd p)) of
             Inl e \<Rightarrow> Inl e
           | Inr d \<Rightarrow>
               if last (snd p) = ''..'' then Inl FileExistsError
               else (case f (d @ [last (snd p)]) of
                       Some _ \<Rightarrow> Inl FileExistsError
                     | None \<Rightarrow> Inr (f(d @ [last (snd p)] \<mapsto> Dir))))"

text \<open>
  \<^verbatim>\<open>Path.mkdir(parents=True, exist_ok=True)\<close>, as pathlib writes it: try
  \<^verbatim>\<open>os.mkdir\<close>; on \<^verbatim>\<open>FileNotFoundError\<close> make the parent the same way and try once
  more; any other error is let through only when the path is not a directory.
\<close>

function path_mkdir :: "filesystem \<Rightarrow> string list \<Rightarrow> ppath \<Rightarrow> error + filesystem" where
  "path_mkdir f wd p =
     (case os_mkdir f wd p of
        Inr f1 \<Rightarrow> Inr f1
      | Inl e \<Rightarrow>
          if e = FileNotFoundError then
            (if snd p = [] then Inl e
             else case path_mkdir f wd (fst p, butlast (snd p)) of
                    Inl e1 \<Rightarrow> Inl e1
                  | Inr f1 \<Rightarrow>
                      (case os_mkdir f1 wd p of
                         Inr f2 \<Rightarrow> Inr f2
                       | Inl e2 \<Rightarrow>
                           if e2 = FileNotFoundError then Inl e2
                           else if fs_is_dir f1 wd p then Inr f1 else Inl e2))
          else if fs_is_dir f wd p then Inr f else Inl e)"
  by pat_completeness auto
termination
  by (relation "measure (\<lambda>(f, wd, p). length (snd p))") auto

declare path_mkdir.simps [simp del]

text \<open>Writing a file: the parent must be a directory, the place must not be one.\<close>

definition write_file :: "filesystem \<Rightarrow> string list \<Rightarrow> ppath \<Rightarrow> string \<Rightarrow> error + filesystem" where
  "write_file f wd p body =
     (if snd p = [] then Inl IsADirectoryError
      else case walk_dirs f (start_of wd p) (butlast (snd p)) of
             Inl e \<Rightarrow> Inl e
           | Inr d \<Rightarrow>
               if last (snd p) = ''..'' then Inl IsADirectoryError
               else (case f (d @ [last (snd p)]) of
                       Some Dir \<Rightarrow> Inl IsADirectoryError
                     | _ \<Rightarrow> Inr (f(d @ [last (snd p)] \<mapsto> File body))))"

definition path_exists :: "ppath \<Rightarrow> world \<Rightarrow> bool \<times> world" where
  "path_exists p w = (fs_exists (fs w) (cwd w) p, log (FsExists p) w)"

text \<open>
  \<^verbatim>\<open>shutil.rmtree\<close> removes a directory and all below it, and fails on what is not a
  directory. The root cannot be removed: its content goes and the call fails.
\<close>

definition shutil_rmtree :: "ppath \<Rightarrow> world \<Rightarrow> (error + unit) \<times> world" where
  "shutil_rmtree p w =
     (let w1 = log (FsRmtree p) w
      in case resolve (fs w) (cwd w) p of
           Inl e \<Rightarrow> (Inl e, w1)
         | Inr q \<Rightarrow>
             (case node_at (fs w) q of
                None \<Rightarrow> (Inl FileNotFoundError, w1)
              | Some (File _) \<Rightarrow> (Inl NotADirectoryError, w1)
              | Some Dir \<Rightarrow>
                  (if q = [] then Inl OSError else Inr (),
                   w1\<lparr>fs := (\<lambda>x. if prefix q x then None else fs w x)\<rparr>)))"

definition mkdir_parents :: "ppath \<Rightarrow> world \<Rightarrow> (error + unit) \<times> world" where
  "mkdir_parents p w =
     (let w1 = log (FsMkdir p) w
      in case path_mkdir (fs w) (cwd w) p of
           Inl e \<Rightarrow> (Inl e, w1)
         | Inr f1 \<Rightarrow> (Inr (), w1\<lparr>fs := f1\<rparr>))"

text \<open>
  \<^verbatim>\<open>s3.download_file(bucket, key, dest)\<close>: the object is looked up first, then its
  body is written at \<open>dest\<close>.
\<close>

definition download_file :: "string \<Rightarrow> string \<Rightarrow> ppath \<Rightarrow> world \<Rightarrow> (error + unit) \<times> world" where
  "download_file bucket key dest w =
     (let w1 = log (S3Download bucket key dest) w
      in case s3 w bucket of
           None \<Rightarrow> (Inl (ClientError ''NoSuchBucket''), w1)
         | Some objs \<Rightarrow>
             (case map_of objs key of
                None \<Rightarrow> (Inl (ClientError ''404''), w1)
              | Some body \<Rightarrow>
                  (case write_file (fs w) (cwd w) dest body of
                     Inl e \<Rightarrow> (Inl e, w1)
                   | Inr f1 \<Rightarrow> (Inr (), w1\<lparr>fs := f1\<rparr>))))"

section \<open>The handlers\<close>

definition ensure_empty_dir :: "ppath \<Rightarrow> world \<Rightarrow> (error + unit) \<times> world" where
  "ensure_empty_dir path w =
     (case path_exists path w of
        (ex, w0) \<Rightarrow>
          (case (if ex then shutil_rmtree path w0 else (Inr (), w0)) of
             (Inl e, w1) \<Rightarrow> (Inl e, w1)
           | (Inr _, w1) \<Rightarrow> mkdir_parents path w1))"

definition missing_bucket :: error where
  "missing_bucket = ValueError ''Missing S3 bucket. Set env var BDI_S3_BUCKET.''"

subsection \<open>The Downloader\<close>

text \<open>
  The body of the \<^verbatim>\<open>for\<close> loop of \<^verbatim>\<open>download_data\<close>, with the counter \<open>uploaded\<close>
  as an argument: \<^verbatim>\<open>break\<close> returns the counter, \<^verbatim>\<open>continue\<close> goes on with the rest
  of the names, an exception ends the loop with the error.
\<close>

fun download_loop :: "string \<Rightarrow> string \<Rightarrow> int \<Rightarrow> string list \<Rightarrow> int \<Rightarrow> world \<Rightarrow> (error + int) \<times> world" where
  "download_loop base_url bucket file_limit [] uploaded w = (Inr uploaded, w)"
| "download_loop base_url bucket file_limit (filename # rest) uploaded w =
     (if uploaded \<ge> file_limit then (Inr uploaded, w)
      else
        (case session_head (base_url @ filename) w of
           (Inl e, w1) \<Rightarrow> (Inl e, w1)
         | (Inr status_code, w1) \<Rightarrow>
             if status_code \<noteq> 200 then download_loop base_url bucket file_limit rest uploaded w1
             else
               (case session_get (base_url @ filename) w1 of
                  (Inl e, w2) \<Rightarrow> (Inl e, w2)
                | (Inr (st, raw), w2) \<Rightarrow>
                    (case raise_for_status st of
                       Inl e \<Rightarrow> (Inl e, w2)
                     | Inr _ \<Rightarrow>
                         (case upload_fileobj raw bucket (S3_PREFIX @ filename) w2 of
                            (Inl e, w3) \<Rightarrow> (Inl e, w3)
                          | (Inr _, w3) \<Rightarrow>
                              download_loop base_url bucket file_limit rest (uploaded + 1) w3)))))"

definition download_data :: "settings \<Rightarrow> int \<Rightarrow> world \<Rightarrow> (error + string) \<times> world" where
  "download_data cfg file_limit w =
     (if file_limit \<le> 0 then (Inr ''OK uploaded=0'', w)
      else
        (case s3_bucket cfg of
           None \<Rightarrow> (Inl missing_bucket, w)
         | Some bucket \<Rightarrow>
             if bucket = [] then (Inl missing_bucket, w)
             else
               (case download_loop (source_url cfg @ ''/'' @ REMOTE_DATE_PATH @ ''/'') bucket file_limit
                       generate_readsb_filenames_every_5s 0 w of
                  (Inl e, w1) \<Rightarrow> (Inl e, w1)
                | (Inr uploaded, w1) \<Rightarrow> (Inr (''OK uploaded='' @ str_int uploaded), w1))))"

subsection \<open>The Localizer\<close>

fun prepare_objects :: "string \<Rightarrow> ppath \<Rightarrow> s3_object list \<Rightarrow> world \<Rightarrow> (error + unit) \<times> world" where
  "prepare_objects bucket local_raw_dir [] w = (Inr (), w)"
| "prepare_objects bucket local_raw_dir (obj # rest) w =
     (if endswith_slash (Key obj) then prepare_objects bucket local_raw_dir rest w
      else
        (case mkdir_parents
                (path_parent (path_join local_raw_dir (parse_path (drop (length S3_PREFIX) (Key obj))))) w of
           (Inl e, w1) \<Rightarrow> (Inl e, w1)
         | (Inr _, w1) \<Rightarrow>
             (case download_file bucket (Key obj)
                     (path_join local_raw_dir (parse_path (drop (length S3_PREFIX) (Key obj)))) w1 of
                (Inl e, w2) \<Rightarrow> (Inl e, w2)
              | (Inr _, w2) \<Rightarrow> prepare_objects bucket local_raw_dir rest w2)))"

fun prepare_pages :: "string \<Rightarrow> ppath \<Rightarrow> page list \<Rightarrow> world \<Rightarrow> (error + unit) \<times> world" where
  "prepare_pages bucket local_raw_dir [] w = (Inr (), w)"
| "prepare_pages bucket local_raw_dir (pg # rest) w =
     (case prepare_objects bucket local_raw_dir (page_get_contents pg) w of
        (Inl e, w1) \<Rightarrow> (Inl e, w1)
      | (Inr _, w1) \<Rightarrow> prepare_pages bucket local_raw_dir rest w1)"

definition local_raw_dir_of :: "settings \<Rightarrow> ppath" where
  "local_raw_dir_of cfg = path_join (parse_path (raw_dir cfg)) (parse_path (''day='' @ DAY))"

text \<open>
  The preparation routine \<^verbatim>\<open>bdi_api.s1.exercise.prepare_data\<close> is not part of the
  sources at hand; it is the parameter \<open>s1_prepare_data\<close>, which is handed the world and
  returns its result and the world it leaves.
\<close>

definition prepare_data ::
  "settings \<Rightarrow> (world \<Rightarrow> (error + string) \<times> world) \<Rightarrow> world \<Rightarrow> (error + string) \<times> world" where
  "prepare_data cfg s1_prepare_data w =
     (case s3_bucket cfg of
        None \<Rightarrow> (Inl missing_bucket, w)
      | Some bucket \<Rightarrow>
          if bucket = [] then (Inl missing_bucket, w)
          else
            (case ensure_empty_dir (local_raw_dir_of cfg) w of
               (Inl e, w1) \<Rightarrow> (Inl e, w1)
             | (Inr _, w1) \<Rightarrow>
                 (case paginate bucket S3_PREFIX w1 of
                    (Inl e, w2) \<Rightarrow> (Inl e, w2)
                  | (Inr pages, w2) \<Rightarrow>
                      (case prepare_pages bucket (local_raw_dir_of cfg) pages w2 of
                         (Inl e, w3) \<Rightarrow> (Inl e, w3)
                       | (Inr _, w3) \<Rightarrow> s1_prepare_data w3))))"

section \<open>Notions used to state the properties\<close>

subsection \<open>Reading a token\<close>

text \<open>
  A token has the form \<^verbatim>\<open>HHMMSSZ.json.gz\<close> when it is fifteen characters long, ends
  with \<^verbatim>\<open>Z.json.gz\<close> and starts with three numbers of two decimal digits, an hour
  below 24, a minute below 60 and a second below 60; \<open>token_seconds\<close> is then its
  time of day in seconds.
\<close>

definition digit_val :: "char \<Rightarrow> nat option" where
  "digit_val c = map_of (zip ''0123456789'' [0 ..< 10]) c"

definition two_digits :: "string \<Rightarrow> nat option" where
  "two_digits s =
     (case s of
        [a, b] \<Rightarrow> (case (digit_val a, digit_val b) of (Some x, Some y) \<Rightarrow> Some (10 * x + y) | _ \<Rightarrow> None)
      | _ \<Rightarrow> None)"

definition token_seconds :: "string \<Rightarrow> int option" where
  "token_seconds s =
     (if length s = 15 \<and> drop 6 s = ''Z.json.gz'' then
        (case (two_digits (take 2 s), two_digits (take 2 (drop 2 s)), two_digits (take 2 (drop 4 s))) of
           (Some h, Some m, Some sec) \<Rightarrow>
             if h < 24 \<and> m < 60 \<and> sec < 60 then Some (int (3600 * h + 60 * m + sec)) else None
         | _ \<Rightarrow> None)
      else None)"

subsection \<open>Reading a trace and a bucket\<close>

text \<open>
  The addresses probed and the keys handed to \<^verbatim>\<open>upload_fileobj\<close>, in the order of
  the calls; the keys that a listing of a bucket under a prefix shows; the three calls
  the loop makes for a name that is there; what makes a probe fail (an answer other
  than 200) and a fetch succeed (an answer that \<^verbatim>\<open>raise_for_status\<close> lets through).
\<close>

definition head_urls :: "event list \<Rightarrow> string list" where
  "head_urls tr = concat (map (\<lambda>e. case e of HttpHead u \<Rightarrow> [u] | _ \<Rightarrow> []) tr)"

definition upload_keys :: "event list \<Rightarrow> string list" where
  "upload_keys tr = concat (map (\<lambda>e. case e of S3Upload b k \<Rightarrow> [k] | _ \<Rightarrow> []) tr)"

definition objects_under :: "world \<Rightarrow> string \<Rightarrow> string \<Rightarrow> string list" where
  "objects_under w bucket pfx = (case s3 w bucket of None \<Rightarrow> [] | Some objs \<Rightarrow> listed_keys objs pfx)"

definition base_url_of :: "settings \<Rightarrow> string" where
  "base_url_of cfg = source_url cfg @ ''/'' @ REMOTE_DATE_PATH @ ''/''"

definition fetch_events :: "string \<Rightarrow> string \<Rightarrow> string \<Rightarrow> event list" where
  "fetch_events base bucket f = [HttpHead (base @ f), HttpGet (base @ f), S3Upload bucket (S3_PREFIX @ f)]"

definition body_of :: "world \<Rightarrow> string \<Rightarrow> string" where
  "body_of w url = (case http_get w url of Inr (st, body) \<Rightarrow> body | Inl _ \<Rightarrow> [])"

definition fetch_ok :: "world \<Rightarrow> string \<Rightarrow> bool" where
  "fetch_ok w url = (case http_get w url of Inr (st, body) \<Rightarrow> \<not> (400 \<le> st \<and> st < 600) | Inl _ \<Rightarrow> False)"

definition probe_failed :: "world \<Rightarrow> string \<Rightarrow> bool" where
  "probe_failed w url = (case http_head w url of Inr st \<Rightarrow> st \<noteq> 200 | Inl _ \<Rightarrow> False)"

definition bucket_unset :: "settings \<Rightarrow> bool" where
  "bucket_unset cfg = (s3_bucket cfg = None \<or> s3_bucket cfg = Some [])"

subsection \<open>Worlds and settings to run the handlers on\<close>

definition example_cfg :: settings where
  "example_cfg = \<lparr>s3_bucket = Some ''bucket'', source_url = ''http://archive'', raw_dir = ''data''\<rparr>"

definition unset_cfg :: settings where
  "unset_cfg = \<lparr>s3_bucket = None, source_url = ''http://archive'', raw_dir = ''data''\<rparr>"

definition head_all_ok :: "string \<Rightarrow> error + int" where
  "head_all_ok url = Inr 200"

definition head_first_missing :: "string \<Rightarrow> error + int" where
  "head_first_missing url = (if url = ''http://archive/2023/11/01/000000Z.json.gz'' then Inr 404 else Inr 200)"

definition get_all_ok :: "string \<Rightarrow> error + int \<times> string" where
  "get_all_ok url = Inr (200, ''payload'')"

definition world_all_ok :: world where
  "world_all_ok =
     \<lparr>http_head = head_all_ok, http_get = get_all_ok, s3 = [''bucket'' \<mapsto> []],
      fs = Map.empty, cwd = [], trace = []\<rparr>"

definition world_first_missing :: world where
  "world_first_missing =
     \<lparr>http_head = head_first_missing, http_get = get_all_ok, s3 = [''bucket'' \<mapsto> []],
      fs = Map.empty, cwd = [], trace = []\<rparr>"

definition s1_ok :: "world \<Rightarrow> (error + string) \<times> world" where
  "s1_ok w = (Inr ''OK'', w)"

subsection \<open>Reading the file system\<close>

text \<open>
  A file system is a tree when every entry but the root lies in a directory. Along a
  path without \<^verbatim>\<open>..\<close> the places passed are the prefixes of the path; \<open>dirs_along\<close>
  says that all of them, the last included, are directories. \<open>location\<close> is where
  such a path leads. \<open>entries_below\<close> and \<open>files_below\<close> are the paths, relative to a
  directory, of all that lies below it and of the files among them.
\<close>

definition wf_fs :: "filesystem \<Rightarrow> bool" where
  "wf_fs f = (\<forall>p. p \<noteq> [] \<longrightarrow> f p \<noteq> None \<longrightarrow> node_at f (butlast p) = Some Dir)"

definition dirs_along :: "filesystem \<Rightarrow> string list \<Rightarrow> string list \<Rightarrow> bool" where
  "dirs_along f start cs = (\<forall>i \<le> length cs. node_at f (start @ take i cs) = Some Dir)"

definition location :: "world \<Rightarrow> ppath \<Rightarrow> string list" where
  "location w p = start_of (cwd w) p @ snd p"

definition entries_below :: "world \<Rightarrow> string list \<Rightarrow> string list set" where
  "entries_below w d = {r. r \<noteq> [] \<and> fs w (d @ r) \<noteq> None}"

definition files_below :: "world \<Rightarrow> string list \<Rightarrow> string list set" where
  "files_below w d = {r. r \<noteq> [] \<and> (\<exists>body. fs w (d @ r) = Some (File body))}"

definition download_keys :: "event list \<Rightarrow> string list" where
  "download_keys tr = concat (map (\<lambda>e. case e of S3Download b k d \<Rightarrow> [k] | _ \<Rightarrow> []) tr)"

text \<open>The part of a listed key after the prefix, as the parts of a path.\<close>

definition key_path :: "string \<Rightarrow> ppath" where
  "key_path key = parse_path (drop (length S3_PREFIX) key)"

definition stale_fs :: filesystem where
  "stale_fs =
     [[''data''] \<mapsto> Dir,
      [''data'', ''day=20231101''] \<mapsto> Dir,
      [''data'', ''day=20231101'', ''stale.json.gz''] \<mapsto> File ''old'']"

definition two_objects :: "(string \<times> string) list" where
  "two_objects =
     [(''raw/day=20231101/000000Z.json.gz'', ''first''),
      (''raw/day=20231101/000005Z.json.gz'', ''second'')]"

definition world_two_objects :: world where
  "world_two_objects =
     \<lparr>http_head = head_all_ok, http_get = get_all_ok, s3 = [''bucket'' \<mapsto> two_objects],
      fs = stale_fs, cwd = [], trace = []\<rparr>"

definition world_empty_bucket :: world where
  "world_empty_bucket =
     \<lparr>http_head = head_all_ok, http_get = get_all_ok, s3 = [''bucket'' \<mapsto> []],
      fs = stale_fs, cwd = [], trace = []\<rparr>"

definition world_stray_key :: world where
  "world_stray_key =
     \<lparr>http_head = head_all_ok, http_get = get_all_ok,
      s3 = [''bucket'' \<mapsto> [(''raw/day=20231101//x'', ''payload'')]],
      fs = Map.empty, cwd = [], trace = []\<rparr>"

definition world_dotdot_key :: world where
  "world_dotdot_key =
     \<lparr>http_head = head_all_ok, http_get = get_all_ok,
      s3 = [''bucket'' \<mapsto> [(''raw/day=20231101/../x'', ''payload'')]],
      fs = Map.empty, cwd = [], trace = []\<rparr>"

section \<open>The filename generator\<close>

lemma py_range_day: "py_range 0 86400 5 = map (\<lambda>i. 5 * int i) [0 ..< 17280]"
  by (simp add: py_range_def)

lemma digit_val_all: "\<forall>d \<in> set [0 ..< 10]. digit_val (digit_char d) = Some d"
  by code_simp

lemma digit_val_digit_char: "d < 10 \<Longrightarrow> digit_val (digit_char d) = Some d"
  using digit_val_all by simp

lemma str_nat_small: "n < 10 \<Longrightarrow> str_nat n = [digit_char n]"
  by (subst str_nat.simps) simp

lemma str_nat_two: "10 \<le> n \<Longrightarrow> n < 100 \<Longrightarrow> str_nat n = [digit_char (n div 10), digit_char (n mod 10)]"
  by (subst str_nat.simps) (simp add: str_nat_small)

lemma fmt_02d_two:
  "n < 100 \<Longrightarrow> fmt_02d (int n) = [digit_char (n div 10), digit_char (n mod 10)]"
  by (cases "n < 10") (simp_all add: fmt_02d_def str_nat_small str_nat_two digit_char_def)

lemma two_digits_fmt: "n < 100 \<Longrightarrow> two_digits (fmt_02d (int n)) = Some n"
  by (simp add: fmt_02d_two two_digits_def digit_val_digit_char)

lemma length_fmt_02d: "n < 100 \<Longrightarrow> length (fmt_02d (int n)) = 2"
  by (simp add: fmt_02d_two)

lemma readsb_filename_nat:
  assumes "s < 86400"
  shows "readsb_filename (int s) =
           fmt_02d (int (s div 3600)) @ fmt_02d (int (s mod 3600 div 60)) @ fmt_02d (int (s mod 60)) @ ''Z.json.gz''"
  by (simp add: readsb_filename_def Let_def zdiv_int zmod_int)

lemma token_seconds_readsb:
  assumes "s < 86400"
  shows "token_seconds (readsb_filename (int s)) = Some (int s)"
proof -
  have h: "s div 3600 < 24" and m: "s mod 3600 div 60 < 60" and c: "s mod 60 < 60"
    using assms by auto
  have "s mod 3600 mod 60 = s mod 60"
    by (simp add: mod_mod_cancel)
  then have sum: "3600 * (s div 3600) + 60 * (s mod 3600 div 60) + s mod 60 = s"
    using div_mult_mod_eq[of s 3600] div_mult_mod_eq[of "s mod 3600" 60] by linarith
  have l: "length (fmt_02d (int (s div 3600))) = 2" "length (fmt_02d (int (s mod 3600 div 60))) = 2"
     "length (fmt_02d (int (s mod 60))) = 2"
    using h m by (simp_all add: length_fmt_02d)
  have c': "s mod 60 < 100"
    using c by linarith
  have t: "two_digits (fmt_02d (int (s div 3600))) = Some (s div 3600)"
    "two_digits (fmt_02d (int (s mod 3600 div 60))) = Some (s mod 3600 div 60)"
    "two_digits (fmt_02d (int (s mod 60))) = Some (s mod 60)"
    using h m c' by (simp_all add: two_digits_fmt)
  show ?thesis
    unfolding readsb_filename_nat[OF assms] token_seconds_def
    using h m sum l t by simp
qed


lemma length_generate: "length generate_readsb_filenames_every_5s = 17280"
  by (simp add: generate_readsb_filenames_every_5s_def py_range_day)

lemma generate_nth:
  "i < 17280 \<Longrightarrow> generate_readsb_filenames_every_5s ! i = readsb_filename (5 * int i)"
  by (simp add: generate_readsb_filenames_every_5s_def py_range_day)

lemma generate_seconds:
  "map token_seconds generate_readsb_filenames_every_5s = map (\<lambda>i. Some (5 * int i)) [0 ..< 17280]"
proof (rule nth_equalityI)
  show "length (map token_seconds generate_readsb_filenames_every_5s) = length (map (\<lambda>i. Some (5 * int i)) [0 ..< 17280])"
    by (simp add: length_generate)
next
  fix i assume "i < length (map token_seconds generate_readsb_filenames_every_5s)"
  then have i: "i < 17280" by (simp add: length_generate)
  then have "5 * i < 86400" by simp
  from token_seconds_readsb[OF this] i
  show "map token_seconds generate_readsb_filenames_every_5s ! i = map (\<lambda>i. Some (5 * int i)) [0 ..< 17280] ! i"
    by (simp add: length_generate generate_nth)
qed

lemma generate_distinct: "distinct generate_readsb_filenames_every_5s"
proof -
  have "distinct (map token_seconds generate_readsb_filenames_every_5s)"
    unfolding generate_seconds by (simp add: distinct_map inj_on_def)
  then show ?thesis by (simp add: distinct_map)
qed

text \<open>
  Claim C6. The generator returns 17280 tokens; read as times of day they are
  0, 5, 10, ... 86395 seconds in this order, so each has the form
  \<^verbatim>\<open>HHMMSSZ.json.gz\<close>, there is one for every 5-second boundary of the day, and the
  sequence is strictly ascending by time of day.
\<close>

theorem generator_tokens:
  "length generate_readsb_filenames_every_5s = 17280 \<and>
   map token_seconds generate_readsb_filenames_every_5s = map (\<lambda>i. Some (5 * int i)) [0 ..< 17280] \<and>
   sorted_wrt (\<lambda>a b. the (token_seconds a) < the (token_seconds b)) generate_readsb_filenames_every_5s"
proof -
  have "sorted_wrt (\<lambda>a b. the a < the b) (map token_seconds generate_readsb_filenames_every_5s)"
    unfolding generate_seconds by (simp add: sorted_wrt_map sorted_wrt_iff_nth_less)
  then show ?thesis
    by (simp add: length_generate generate_seconds[symmetric] sorted_wrt_map del: )
qed

section \<open>The Downloader\<close>

lemma head_urls_simps [simp]:
  "head_urls [] = []"
  "head_urls (a @ b) = head_urls a @ head_urls b"
  "head_urls (HttpHead u # tr) = u # head_urls tr"
  "head_urls (HttpGet u # tr) = head_urls tr"
  "head_urls (S3Upload bk k # tr) = head_urls tr"
  by (simp_all add: head_urls_def)

lemma upload_keys_simps [simp]:
  "upload_keys [] = []"
  "upload_keys (a @ b) = upload_keys a @ upload_keys b"
  "upload_keys (HttpHead u # tr) = upload_keys tr"
  "upload_keys (HttpGet u # tr) = upload_keys tr"
  "upload_keys (S3Upload bk k # tr) = k # upload_keys tr"
  by (simp_all add: upload_keys_def)

text \<open>The loop in a world where every name is there.\<close>

lemma download_loop_all_ok:
  assumes "\<forall>f \<in> set ns. http_head w (base @ f) = Inr 200 \<and> fetch_ok w (base @ f)"
    and "s3 w bucket = Some objs"
  shows "fst (download_loop base bucket lim ns up w) = Inr (up + int (length (take (nat (lim - up)) ns))) \<and>
         trace (snd (download_loop base bucket lim ns up w)) =
           trace w @ concat (map (fetch_events base bucket) (take (nat (lim - up)) ns)) \<and>
         s3 (snd (download_loop base bucket lim ns up w)) =
           (s3 w)(bucket \<mapsto>
              fold (\<lambda>f. AList.update (S3_PREFIX @ f) (body_of w (base @ f))) (take (nat (lim - up)) ns) objs)"
  using assms
proof (induction ns arbitrary: up w objs)
  case Nil
  then show ?case by (simp add: map_upd_triv)
next
  case (Cons f ns)
  show ?case
  proof (cases "up \<ge> lim")
    case True
    with Cons.prems show ?thesis by (simp add: map_upd_triv)
  next
    case False
    from Cons.prems obtain st body where
      h: "http_head w (base @ f) = Inr 200" and g: "http_get w (base @ f) = Inr (st, body)"
      and st: "\<not> (400 \<le> st \<and> st < 600)"
      by (auto simp: fetch_ok_def split: sum.splits)
    have rs: "raise_for_status st = Inr ()"
      using st by (auto simp: raise_for_status_def)
    let ?w3 = "w\<lparr>trace := trace w @ fetch_events base bucket f,
                  s3 := (s3 w)(bucket \<mapsto> AList.update (S3_PREFIX @ f) body objs)\<rparr>"
    have step: "download_loop base bucket lim (f # ns) up w = download_loop base bucket lim ns (up + 1) ?w3"
      using False h g rs Cons.prems(2)
      by (simp add: session_head_def session_get_def upload_fileobj_def log_def
          fetch_events_def Let_def)
    have p1: "\<forall>f \<in> set ns. http_head ?w3 (base @ f) = Inr 200 \<and> fetch_ok ?w3 (base @ f)"
      using Cons.prems(1) by (simp add: fetch_ok_def)
    have p2: "s3 ?w3 bucket = Some (AList.update (S3_PREFIX @ f) body objs)" by simp
    have n: "nat (lim - up) = Suc (nat (lim - (up + 1)))" using False by simp
    have b: "body_of w (base @ f) = body" "\<And>u. body_of ?w3 u = body_of w u"
      using g by (simp_all add: body_of_def)
    show ?thesis
      unfolding step n using Cons.IH[OF p1 p2, of "up + 1"] by (simp add: b fun_eq_iff)
  qed
qed

text \<open>The loop over names that are all missing: each is probed once and skipped.\<close>

lemma download_loop_skip:
  assumes "\<forall>f \<in> set ns1. probe_failed w (base @ f)" and "up < lim"
  shows "download_loop base bucket lim (ns1 @ ns2) up w =
           download_loop base bucket lim ns2 up (w\<lparr>trace := trace w @ map (\<lambda>f. HttpHead (base @ f)) ns1\<rparr>)"
  using assms
proof (induction ns1 arbitrary: w)
  case Nil
  then show ?case by simp
next
  case (Cons f ns1)
  from Cons.prems obtain st where h: "http_head w (base @ f) = Inr st" and st: "st \<noteq> 200"
    by (auto simp: probe_failed_def split: sum.splits)
  let ?w1 = "w\<lparr>trace := trace w @ [HttpHead (base @ f)]\<rparr>"
  have step: "download_loop base bucket lim ((f # ns1) @ ns2) up w = download_loop base bucket lim (ns1 @ ns2) up ?w1"
    using Cons.prems(2) h st by (simp add: session_head_def log_def)
  have p: "\<forall>f \<in> set ns1. probe_failed ?w1 (base @ f)"
    using Cons.prems(1) by (simp add: probe_failed_def)
  show ?case
    unfolding step Cons.IH[OF p Cons.prems(2)] by simp
qed

text \<open>Every run of the loop: the probes are a prefix of the names.\<close>

lemma download_loop_probes:
  "\<exists>m sel. m \<le> length ns \<and>
     head_urls (trace (snd (download_loop base bucket lim ns up w))) =
       head_urls (trace w) @ map ((@) base) (take m ns) \<and>
     upload_keys (trace (snd (download_loop base bucket lim ns up w))) =
       upload_keys (trace w) @ map ((@) S3_PREFIX) sel \<and>
     (lim \<le> up \<longrightarrow> m = 0 \<and> sel = []) \<and>
     (up < lim \<longrightarrow> int (length sel) \<le> lim - up) \<and>
     (sel \<noteq> [] \<and> int (length sel) = lim - up \<longrightarrow> 0 < m \<and> last sel = ns ! (m - 1))"
proof (induction ns arbitrary: up w)
  case Nil
  show ?case by (rule exI[of _ 0], rule exI[of _ "[]"]) simp
next
  case (Cons f ns)
  let ?P = "\<lambda>m sel. m \<le> length (f # ns) \<and>
     head_urls (trace (snd (download_loop base bucket lim (f # ns) up w))) =
       head_urls (trace w) @ map ((@) base) (take m (f # ns)) \<and>
     upload_keys (trace (snd (download_loop base bucket lim (f # ns) up w))) =
       upload_keys (trace w) @ map ((@) S3_PREFIX) sel \<and>
     (lim \<le> up \<longrightarrow> m = 0 \<and> sel = []) \<and>
     (up < lim \<longrightarrow> int (length sel) \<le> lim - up) \<and>
     (sel \<noteq> [] \<and> int (length sel) = lim - up \<longrightarrow> 0 < m \<and> last sel = (f # ns) ! (m - 1))"
  show ?case
  proof (cases "up \<ge> lim")
    case True
    then have "?P 0 []" by simp
    then show ?thesis by blast
  next
    case lt: False
    show ?thesis
    proof (cases "http_head w (base @ f)")
      case (Inl e)
      with lt have "?P 1 []" by (simp add: session_head_def log_def)
      then show ?thesis by blast
    next
      case (Inr st)
      let ?w1 = "log (HttpHead (base @ f)) w"
      show ?thesis
      proof (cases "st = 200")
        case False
        from Cons.IH[of up ?w1] obtain m sel where
          ih: "m \<le> length ns"
          "head_urls (trace (snd (download_loop base bucket lim ns up ?w1))) =
             head_urls (trace ?w1) @ map ((@) base) (take m ns)"
          "upload_keys (trace (snd (download_loop base bucket lim ns up ?w1))) =
             upload_keys (trace ?w1) @ map ((@) S3_PREFIX) sel"
          "lim \<le> up \<longrightarrow> m = 0 \<and> sel = []"
          "up < lim \<longrightarrow> int (length sel) \<le> lim - up"
          "sel \<noteq> [] \<and> int (length sel) = lim - up \<longrightarrow> 0 < m \<and> last sel = ns ! (m - 1)"
          by blast
        have eq: "download_loop base bucket lim (f # ns) up w = download_loop base bucket lim ns up ?w1"
          using lt Inr False by (simp add: session_head_def)
        have "?P (Suc m) sel"
          unfolding eq using ih lt by (auto simp: log_def nth_Cons')
        then show ?thesis by blast
      next
        case True
        let ?w2 = "log (HttpGet (base @ f)) ?w1"
        show ?thesis
        proof (cases "http_get w (base @ f)")
          case (Inl e)
          with lt Inr True have "?P 1 []" by (simp add: session_head_def session_get_def log_def)
          then show ?thesis by blast
        next
          case get: (Inr r)
          obtain gst body where r: "r = (gst, body)" by (cases r)
          show ?thesis
          proof (cases "400 \<le> gst \<and> gst < 600")
            case True
            with lt Inr \<open>st = 200\<close> get r have "?P 1 []"
              by (simp add: session_head_def session_get_def log_def raise_for_status_def)
            then show ?thesis by blast
          next
            case False
            then have ok: "raise_for_status gst = Inr ()"
              by (auto simp: raise_for_status_def)
            show ?thesis
            proof (cases "s3 w bucket")
              case None
              with lt Inr \<open>st = 200\<close> get r ok have "?P 1 [f]"
                by (simp add: session_head_def session_get_def log_def
                    upload_fileobj_def Let_def)
              then show ?thesis by blast
            next
              case (Some objs)
              let ?w3 = "(log (S3Upload bucket (S3_PREFIX @ f)) ?w2)\<lparr>s3 := (s3 w)(bucket \<mapsto> AList.update (S3_PREFIX @ f) body objs)\<rparr>"
              have eq: "download_loop base bucket lim (f # ns) up w = download_loop base bucket lim ns (up + 1) ?w3"
                using lt Inr \<open>st = 200\<close> get r ok Some
                by (simp add: session_head_def session_get_def log_def
                    upload_fileobj_def Let_def)
              from Cons.IH[of "up + 1" ?w3] obtain m sel where
                ih: "m \<le> length ns"
                "head_urls (trace (snd (download_loop base bucket lim ns (up + 1) ?w3))) =
                   head_urls (trace ?w3) @ map ((@) base) (take m ns)"
                "upload_keys (trace (snd (download_loop base bucket lim ns (up + 1) ?w3))) =
                   upload_keys (trace ?w3) @ map ((@) S3_PREFIX) sel"
                "lim \<le> up + 1 \<longrightarrow> m = 0 \<and> sel = []"
                "up + 1 < lim \<longrightarrow> int (length sel) \<le> lim - (up + 1)"
                "sel \<noteq> [] \<and> int (length sel) = lim - (up + 1) \<longrightarrow> 0 < m \<and> last sel = ns ! (m - 1)"
                by blast
              have "?P (Suc m) (f # sel)"
                unfolding eq using ih lt by (auto simp: log_def nth_Cons')
              then show ?thesis by blast
            qed
          qed
        qed
      qed
    qed
  qed
qed

lemma fold_update_keys:
  "fst ` set (fold (\<lambda>f. AList.update (p @ f) (bd f)) sel objs) = fst ` set objs \<union> ((@) p) ` set sel"
  by (induction sel arbitrary: objs) (auto simp: dom_update)

lemma set_listed_keys: "set (listed_keys objs pfx) = {k \<in> fst ` set objs. prefix pfx k}"
  by (auto simp: listed_keys_def)

lemma distinct_listed_keys: "distinct (listed_keys objs pfx)"
  by (simp add: listed_keys_def)

lemma base_url_of_alt: "source_url cfg @ ''/'' @ REMOTE_DATE_PATH @ ''/'' = base_url_of cfg"
  by (simp add: base_url_of_def)

lemma download_data_configured:
  assumes "0 < n" "s3_bucket cfg = Some bucket" "bucket \<noteq> []"
  shows "download_data cfg n w =
           (case download_loop (base_url_of cfg) bucket n generate_readsb_filenames_every_5s 0 w of
              (Inl e, w1) \<Rightarrow> (Inl e, w1)
            | (Inr uploaded, w1) \<Rightarrow> (Inr (''OK uploaded='' @ str_int uploaded), w1))"
  using assms by (simp add: download_data_def base_url_of_def)

lemma download_data_run:
  assumes "0 < n" "s3_bucket cfg = Some bucket" "bucket \<noteq> []"
    and "fst (download_loop (base_url_of cfg) bucket n generate_readsb_filenames_every_5s 0 w) = Inr u"
  shows "fst (download_data cfg n w) = Inr (''OK uploaded='' @ str_int u)"
    and "snd (download_data cfg n w) =
           snd (download_loop (base_url_of cfg) bucket n generate_readsb_filenames_every_5s 0 w)"
  using assms(4) unfolding download_data_configured[OF assms(1-3)]
  by (auto split: prod.splits sum.splits)

lemma snd_download_data:
  assumes "0 < n" "s3_bucket cfg = Some bucket" "bucket \<noteq> []"
  shows "snd (download_data cfg n w) =
           snd (download_loop (base_url_of cfg) bucket n generate_readsb_filenames_every_5s 0 w)"
  unfolding download_data_configured[OF assms(1-3)]
  by (auto split: prod.splits sum.splits)

lemma download_data_idle:
  assumes "n \<le> 0 \<or> bucket_unset cfg"
  shows "snd (download_data cfg n w) = w"
  using assms by (auto simp: download_data_def bucket_unset_def split: option.splits)

lemma download_data_all_ok:
  assumes n: "0 < n" and b: "s3_bucket cfg = Some bucket" "bucket \<noteq> []"
    and ok: "\<forall>f \<in> set generate_readsb_filenames_every_5s.
               http_head w (base_url_of cfg @ f) = Inr 200 \<and> fetch_ok w (base_url_of cfg @ f)"
    and s: "s3 w bucket = Some objs"
    and e: "objects_under w bucket S3_PREFIX = []"
  shows "fst (download_data cfg n w) = Inr (''OK uploaded='' @ str_int (min n 17280)) \<and>
         upload_keys (trace (snd (download_data cfg n w))) =
           upload_keys (trace w) @ map ((@) S3_PREFIX) (take (nat n) generate_readsb_filenames_every_5s) \<and>
         set (objects_under (snd (download_data cfg n w)) bucket S3_PREFIX) =
           ((@) S3_PREFIX) ` set (take (nat n) generate_readsb_filenames_every_5s) \<and>
         length (objects_under (snd (download_data cfg n w)) bucket S3_PREFIX) = nat (min n 17280)"
proof -
  let ?g = generate_readsb_filenames_every_5s
  let ?sel = "take (nat n) ?g"
  let ?L = "download_loop (base_url_of cfg) bucket n ?g 0 w"
  from download_loop_all_ok[OF ok s, of n 0]
  have l1: "fst ?L = Inr (int (length ?sel))"
    and l2: "trace (snd ?L) = trace w @ concat (map (fetch_events (base_url_of cfg) bucket) ?sel)"
    and l3: "s3 (snd ?L) = (s3 w)(bucket \<mapsto>
               fold (\<lambda>f. AList.update (S3_PREFIX @ f) (body_of w (base_url_of cfg @ f))) ?sel objs)"
    by simp_all
  have len: "int (length ?sel) = min n 17280"
    using n by (simp add: length_generate)
  have r1: "fst (download_data cfg n w) = Inr (''OK uploaded='' @ str_int (min n 17280))"
    using download_data_run(1)[OF n b l1] len by simp
  have sn: "snd (download_data cfg n w) = snd ?L"
    by (rule snd_download_data[OF n b])
  have uk: "upload_keys (concat (map (fetch_events (base_url_of cfg) bucket) xs)) = map ((@) S3_PREFIX) xs" for xs
    by (induction xs) (simp_all add: fetch_events_def)
  have r2: "upload_keys (trace (snd (download_data cfg n w))) = upload_keys (trace w) @ map ((@) S3_PREFIX) ?sel"
    unfolding sn l2 by (simp add: uk)
  have none: "{k \<in> fst ` set objs. prefix S3_PREFIX k} = {}"
    using e s by (simp add: objects_under_def set_listed_keys[symmetric])
  have ou: "objects_under (snd (download_data cfg n w)) bucket S3_PREFIX =
          listed_keys (fold (\<lambda>f. AList.update (S3_PREFIX @ f) (body_of w (base_url_of cfg @ f))) ?sel objs) S3_PREFIX"
    unfolding sn by (simp add: objects_under_def l3)
  have r3: "set (objects_under (snd (download_data cfg n w)) bucket S3_PREFIX) = ((@) S3_PREFIX) ` set ?sel"
    unfolding ou set_listed_keys fold_update_keys using none by auto
  have "distinct (map ((@) S3_PREFIX) ?sel)"
    using generate_distinct by (simp add: distinct_map inj_on_def)
  then have "card (((@) S3_PREFIX) ` set ?sel) = length ?sel"
    using distinct_card[of "map ((@) S3_PREFIX) ?sel"] by simp
  then have "length (objects_under (snd (download_data cfg n w)) bucket S3_PREFIX) = length ?sel"
    using distinct_card[OF distinct_listed_keys, of "fold (\<lambda>f. AList.update (S3_PREFIX @ f) (body_of w (base_url_of cfg @ f))) ?sel objs" S3_PREFIX]
    unfolding ou[symmetric] r3 by simp
  then have r4: "length (objects_under (snd (download_data cfg n w)) bucket S3_PREFIX) = nat (min n 17280)"
    using len by linarith
  show ?thesis using r1 r2 r3 r4 by blast
qed

lemma world_all_ok_probes:
  "\<forall>f \<in> set generate_readsb_filenames_every_5s.
     http_head world_all_ok (base_url_of example_cfg @ f) = Inr 200 \<and>
     fetch_ok world_all_ok (base_url_of example_cfg @ f)"
  by (simp add: world_all_ok_def head_all_ok_def get_all_ok_def fetch_ok_def)

lemma world_all_ok_bucket:
  "s3 world_all_ok ''bucket'' = Some []" "objects_under world_all_ok ''bucket'' S3_PREFIX = []"
  "s3_bucket example_cfg = Some ''bucket''" "''bucket'' \<noteq> []"
  by (simp_all add: world_all_ok_def objects_under_def listed_keys_def example_cfg_def)

lemma str_int_17280: "str_int 17280 = ''17280''"
  by (simp add: str_int_def str_nat.simps digit_char_def)

lemma str_int_2: "str_int 2 = ''2''"
  by (simp add: str_int_def str_nat.simps digit_char_def)

text \<open>
  Claim C1, as amended. For a limit \<open>n > 0\<close>, a bucket that is configured and exists and
  holds nothing under the prefix \<^verbatim>\<open>raw/day=20231101/\<close>, and an archive where every
  probe answers 200 and every fetch succeeds, the Downloader uploads the first
  \<open>min n 17280\<close> names of the day under the prefix, exactly that many objects are
  under the prefix afterwards, and the status is \<^verbatim>\<open>OK uploaded=\<close> followed by
  \<open>min n 17280\<close>: the day has 17280 names and the loop ends with them.
\<close>

theorem all_probes_ok_uploads_up_to_limit:
  assumes "0 < n" and "s3_bucket cfg = Some bucket" and "bucket \<noteq> []"
    and "\<forall>f \<in> set generate_readsb_filenames_every_5s.
               http_head w (base_url_of cfg @ f) = Inr 200 \<and> fetch_ok w (base_url_of cfg @ f)"
    and "s3 w bucket = Some objs"
    and "objects_under w bucket S3_PREFIX = []"
  shows "fst (download_data cfg n w) = Inr (''OK uploaded='' @ str_int (min n 17280)) \<and>
         upload_keys (trace (snd (download_data cfg n w))) =
           upload_keys (trace w) @ map ((@) S3_PREFIX) (take (nat n) generate_readsb_filenames_every_5s) \<and>
         set (objects_under (snd (download_data cfg n w)) bucket S3_PREFIX) =
           ((@) S3_PREFIX) ` set (take (nat n) generate_readsb_filenames_every_5s) \<and>
         length (objects_under (snd (download_data cfg n w)) bucket S3_PREFIX) = nat (min n 17280)"
  using assms by (rule download_data_all_ok)

theorem all_probes_ok_uploads_up_to_limit_witness:
  "fst (download_data example_cfg 2 world_all_ok) = Inr ''OK uploaded=2'' \<and>
   length (objects_under (snd (download_data example_cfg 2 world_all_ok)) ''bucket'' S3_PREFIX) = 2"
  using all_probes_ok_uploads_up_to_limit[OF _ world_all_ok_bucket(3,4) world_all_ok_probes world_all_ok_bucket(1,2), of 2]
  by (simp add: str_int_2)

text \<open>
  Claim C1 as stated fails for a limit above 17280: with every probe and fetch
  succeeding and the limit 17281, 17280 objects are uploaded and reported.
\<close>

theorem limit_beyond_day_counterexample:
  "fst (download_data example_cfg 17281 world_all_ok) = Inr ''OK uploaded=17280'' \<and>
   length (objects_under (snd (download_data example_cfg 17281 world_all_ok)) ''bucket'' S3_PREFIX) = 17280"
  using download_data_all_ok[OF _ world_all_ok_bucket(3,4) world_all_ok_probes world_all_ok_bucket(1,2), of 17281]
  by (simp add: str_int_17280)

lemma download_data_skip_then_ok:
  assumes n: "0 < n" and b: "s3_bucket cfg = Some bucket" "bucket \<noteq> []"
    and bad: "\<forall>f \<in> set (take k generate_readsb_filenames_every_5s). probe_failed w (base_url_of cfg @ f)"
    and ok: "\<forall>f \<in> set (drop k generate_readsb_filenames_every_5s).
               http_head w (base_url_of cfg @ f) = Inr 200 \<and> fetch_ok w (base_url_of cfg @ f)"
    and s: "s3 w bucket = Some objs"
  shows "fst (download_data cfg n w) =
           Inr (''OK uploaded='' @ str_int (int (length (take (nat n) (drop k generate_readsb_filenames_every_5s))))) \<and>
         trace (snd (download_data cfg n w)) =
           trace w @ map (\<lambda>f. HttpHead (base_url_of cfg @ f)) (take k generate_readsb_filenames_every_5s) @
           concat (map (fetch_events (base_url_of cfg) bucket)
                     (take (nat n) (drop k generate_readsb_filenames_every_5s))) \<and>
         s3 (snd (download_data cfg n w)) =
           (s3 w)(bucket \<mapsto>
              fold (\<lambda>f. AList.update (S3_PREFIX @ f) (body_of w (base_url_of cfg @ f)))
                (take (nat n) (drop k generate_readsb_filenames_every_5s)) objs)"
proof -
  let ?g = generate_readsb_filenames_every_5s
  let ?base = "base_url_of cfg"
  let ?w1 = "w\<lparr>trace := trace w @ map (\<lambda>f. HttpHead (?base @ f)) (take k ?g)\<rparr>"
  let ?sel = "take (nat n) (drop k ?g)"
  have split: "download_loop ?base bucket n ?g 0 w = download_loop ?base bucket n (drop k ?g) 0 ?w1"
    using download_loop_skip[OF bad n, of bucket "drop k ?g"] by simp
  have ok1: "\<forall>f \<in> set (drop k ?g). http_head ?w1 (?base @ f) = Inr 200 \<and> fetch_ok ?w1 (?base @ f)"
    using ok by (simp add: fetch_ok_def)
  have s1: "s3 ?w1 bucket = Some objs"
    using s by simp
  have bw: "\<And>u. body_of ?w1 u = body_of w u"
    by (simp add: body_of_def)
  from download_loop_all_ok[OF ok1 s1, of n 0]
  have l1: "fst (download_loop ?base bucket n ?g 0 w) = Inr (int (length ?sel))"
    and l2: "trace (snd (download_loop ?base bucket n ?g 0 w)) =
               trace w @ map (\<lambda>f. HttpHead (?base @ f)) (take k ?g) @
               concat (map (fetch_events ?base bucket) ?sel)"
    and l3: "s3 (snd (download_loop ?base bucket n ?g 0 w)) =
               (s3 w)(bucket \<mapsto> fold (\<lambda>f. AList.update (S3_PREFIX @ f) (body_of w (?base @ f))) ?sel objs)"
    unfolding split by (simp_all add: bw)
  show ?thesis
    using download_data_run(1)[OF n b l1] l2 l3 unfolding snd_download_data[OF n b] by simp
qed

lemma generate_first: "take 1 generate_readsb_filenames_every_5s = [''000000Z.json.gz'']"
proof -
  have "generate_readsb_filenames_every_5s ! 0 = ''000000Z.json.gz''"
    using generate_nth[of 0]
    by (simp add: readsb_filename_def fmt_02d_def str_nat.simps digit_char_def)
  moreover have "take (Suc 0) generate_readsb_filenames_every_5s =
                   take 0 generate_readsb_filenames_every_5s @ [generate_readsb_filenames_every_5s ! 0]"
    by (rule take_Suc_conv_app_nth) (simp add: length_generate)
  ultimately show ?thesis by simp
qed

lemma generate_rest: "''000000Z.json.gz'' \<notin> set (drop 1 generate_readsb_filenames_every_5s)"
proof -
  have "distinct (take 1 generate_readsb_filenames_every_5s @ drop 1 generate_readsb_filenames_every_5s)"
    using generate_distinct by simp
  then have "set (take 1 generate_readsb_filenames_every_5s) \<inter> set (drop 1 generate_readsb_filenames_every_5s) = {}"
    unfolding distinct_append by blast
  then show ?thesis
    unfolding generate_first by simp
qed

lemma base_url_example: "base_url_of example_cfg = ''http://archive/2023/11/01/''"
  by (simp add: base_url_of_def example_cfg_def REMOTE_DATE_PATH_def)

lemma world_first_missing_bad:
  "\<forall>f \<in> set (take 1 generate_readsb_filenames_every_5s).
     probe_failed world_first_missing (base_url_of example_cfg @ f)"
  unfolding generate_first base_url_example
  by (simp add: probe_failed_def world_first_missing_def head_first_missing_def)

lemma world_first_missing_ok:
  "\<forall>f \<in> set (drop 1 generate_readsb_filenames_every_5s).
     http_head world_first_missing (base_url_of example_cfg @ f) = Inr 200 \<and>
     fetch_ok world_first_missing (base_url_of example_cfg @ f)"
  unfolding base_url_example using generate_rest
  by (auto simp: world_first_missing_def head_first_missing_def fetch_ok_def get_all_ok_def)

lemma world_first_missing_bucket: "s3 world_first_missing ''bucket'' = Some []"
  by (simp add: world_first_missing_def)

text \<open>
  Claim C2. When the probes of the first \<open>k\<close> names answer something other than 200
  and all later probes and fetches succeed, a run with a limit \<open>n > 0\<close> makes exactly
  these calls, in this order: one probe for each of the first \<open>k\<close> names and nothing
  else for them; then probe, fetch and upload for each of the first \<open>n\<close> names after
  them (all of them when fewer than \<open>n\<close> are left). The objects stored are those of
  these names, and the count reported is their number: a skipped name is probed once,
  not fetched, not retried and not counted.
\<close>

theorem first_successful_probes_uploaded:
  assumes "0 < n" and "s3_bucket cfg = Some bucket" and "bucket \<noteq> []"
    and "\<forall>f \<in> set (take k generate_readsb_filenames_every_5s). probe_failed w (base_url_of cfg @ f)"
    and "\<forall>f \<in> set (drop k generate_readsb_filenames_every_5s).
               http_head w (base_url_of cfg @ f) = Inr 200 \<and> fetch_ok w (base_url_of cfg @ f)"
    and "s3 w bucket = Some objs"
  shows "fst (download_data cfg n w) =
           Inr (''OK uploaded='' @ str_int (int (length (take (nat n) (drop k generate_readsb_filenames_every_5s))))) \<and>
         trace (snd (download_data cfg n w)) =
           trace w @ map (\<lambda>f. HttpHead (base_url_of cfg @ f)) (take k generate_readsb_filenames_every_5s) @
           concat (map (fetch_events (base_url_of cfg) bucket)
                     (take (nat n) (drop k generate_readsb_filenames_every_5s))) \<and>
         s3 (snd (download_data cfg n w)) =
           (s3 w)(bucket \<mapsto>
              fold (\<lambda>f. AList.update (S3_PREFIX @ f) (body_of w (base_url_of cfg @ f)))
                (take (nat n) (drop k generate_readsb_filenames_every_5s)) objs)"
  using assms by (rule download_data_skip_then_ok)

theorem first_successful_probes_uploaded_witness:
  "fst (download_data example_cfg 2 world_first_missing) = Inr ''OK uploaded=2'' \<and>
   trace (snd (download_data example_cfg 2 world_first_missing)) =
     map (\<lambda>f. HttpHead (base_url_of example_cfg @ f)) (take 1 generate_readsb_filenames_every_5s) @
     concat (map (fetch_events (base_url_of example_cfg) ''bucket'')
               (take 2 (drop 1 generate_readsb_filenames_every_5s)))"
  using first_successful_probes_uploaded[OF _ world_all_ok_bucket(3,4) world_first_missing_bad
      world_first_missing_ok world_first_missing_bucket, of 2]
  by (simp add: str_int_2 length_generate world_first_missing_def)

text \<open>
  Claim C3. With a limit of zero or less the Downloader returns \<^verbatim>\<open>OK uploaded=0\<close>
  and leaves the world as it was: no probe, no fetch, no storage call is made.
\<close>

theorem nonpositive_limit_no_calls:
  "n \<le> 0 \<Longrightarrow>
     download_data cfg n w = (Inr ''OK uploaded=0'', w) \<and> trace (snd (download_data cfg n w)) = trace w"
  by (simp add: download_data_def)

theorem nonpositive_limit_no_calls_witness:
  "download_data example_cfg (- 3) world_all_ok = (Inr ''OK uploaded=0'', world_all_ok) \<and>
   trace (snd (download_data example_cfg (- 3) world_all_ok)) = []"
  using nonpositive_limit_no_calls[of "- 3" example_cfg world_all_ok]
  by (simp add: world_all_ok_def)

text \<open>
  Claim C10. With a limit of zero or less the Downloader returns \<^verbatim>\<open>OK uploaded=0\<close>
  whatever the settings are, so also without a bucket; without a bucket it raises the
  configuration error exactly when the limit is positive.
\<close>

theorem nonpositive_limit_ignores_bucket:
  "(n \<le> 0 \<longrightarrow> download_data cfg n w = (Inr ''OK uploaded=0'', w)) \<and>
   (bucket_unset cfg \<longrightarrow> (fst (download_data cfg n w) = Inl missing_bucket \<longleftrightarrow> 0 < n))"
  by (auto simp: download_data_def bucket_unset_def)

theorem nonpositive_limit_ignores_bucket_witness:
  "bucket_unset unset_cfg \<and>
   download_data unset_cfg 0 world_all_ok = (Inr ''OK uploaded=0'', world_all_ok) \<and>
   fst (download_data unset_cfg 1 world_all_ok) = Inl missing_bucket"
  using nonpositive_limit_ignores_bucket[of 0 unset_cfg world_all_ok]
    nonpositive_limit_ignores_bucket[of 1 unset_cfg world_all_ok]
  by (simp add: bucket_unset_def unset_cfg_def)

text \<open>
  Claim C4, as amended. Without a bucket the Localizer always, and the Downloader for
  every positive limit, return the configuration error and leave the world as it was:
  no call to the network, the storage or the file system is made before.
\<close>

theorem unset_bucket_fails_before_io:
  "bucket_unset cfg \<Longrightarrow>
     prepare_data cfg s1_prepare_data w = (Inl missing_bucket, w) \<and>
     (0 < n \<longrightarrow> download_data cfg n w = (Inl missing_bucket, w))"
  by (auto simp: prepare_data_def download_data_def bucket_unset_def)

theorem unset_bucket_fails_before_io_witness:
  "bucket_unset unset_cfg \<and>
   prepare_data unset_cfg s1_ok world_all_ok = (Inl missing_bucket, world_all_ok) \<and>
   download_data unset_cfg 1 world_all_ok = (Inl missing_bucket, world_all_ok)"
  using unset_bucket_fails_before_io[of unset_cfg s1_ok world_all_ok 1]
  by (simp add: bucket_unset_def unset_cfg_def)

text \<open>
  Claim C4 as stated fails for the Downloader: without a bucket and with the limit 0
  it raises nothing and returns \<^verbatim>\<open>OK uploaded=0\<close>.
\<close>

theorem unset_bucket_zero_limit_counterexample:
  "bucket_unset unset_cfg \<and> fst (download_data unset_cfg 0 world_all_ok) = Inr ''OK uploaded=0''"
  by (simp add: bucket_unset_def unset_cfg_def download_data_def)

text \<open>
  Claim C5. In every run of the Downloader, whatever the archive and the storage
  answer, the addresses probed are those of the first \<open>m\<close> names of the day, in
  order, for some \<open>m\<close>; the number of upload calls never exceeds a positive limit;
  and when it reaches the limit, the last name probed is the one of the last upload:
  no name after it is probed.
\<close>

theorem no_probe_after_limit:
  "\<exists>m sel. m \<le> length generate_readsb_filenames_every_5s \<and>
     head_urls (trace (snd (download_data cfg n w))) =
       head_urls (trace w) @ map ((@) (base_url_of cfg)) (take m generate_readsb_filenames_every_5s) \<and>
     upload_keys (trace (snd (download_data cfg n w))) =
       upload_keys (trace w) @ map ((@) S3_PREFIX) sel \<and>
     (n \<le> 0 \<longrightarrow> m = 0 \<and> sel = []) \<and>
     (0 < n \<longrightarrow> int (length sel) \<le> n) \<and>
     (0 < n \<and> int (length sel) = n \<longrightarrow>
        0 < m \<and> last sel = generate_readsb_filenames_every_5s ! (m - 1))"
proof (cases "n \<le> 0 \<or> bucket_unset cfg")
  case True
  from download_data_idle[OF this]
  have "snd (download_data cfg n w) = w" .
  then show ?thesis
    by (intro exI[of _ 0] exI[of _ "[]"]) simp
next
  case False
  then obtain bucket where n: "0 < n" and b: "s3_bucket cfg = Some bucket" "bucket \<noteq> []"
    by (auto simp: bucket_unset_def)
  from download_loop_probes[of generate_readsb_filenames_every_5s "base_url_of cfg" bucket n 0 w]
  obtain m sel where
    "m \<le> length generate_readsb_filenames_every_5s"
    "head_urls (trace (snd (download_loop (base_url_of cfg) bucket n generate_readsb_filenames_every_5s 0 w))) =
       head_urls (trace w) @ map ((@) (base_url_of cfg)) (take m generate_readsb_filenames_every_5s)"
    "upload_keys (trace (snd (download_loop (base_url_of cfg) bucket n generate_readsb_filenames_every_5s 0 w))) =
       upload_keys (trace w) @ map ((@) S3_PREFIX) sel"
    "0 < n \<longrightarrow> int (length sel) \<le> n - 0"
    "sel \<noteq> [] \<and> int (length sel) = n - 0 \<longrightarrow> 0 < m \<and> last sel = generate_readsb_filenames_every_5s ! (m - 1)"
    by blast
  then show ?thesis
    unfolding snd_download_data[OF n b] using n
    by (intro exI[of _ m] exI[of _ sel]) auto
qed

theorem no_probe_after_limit_witness:
  "\<exists>m. head_urls (trace (snd (download_data example_cfg 2 world_all_ok))) =
          map ((@) (base_url_of example_cfg)) (take m generate_readsb_filenames_every_5s) \<and>
        0 < m \<and>
        last (take 2 generate_readsb_filenames_every_5s) = generate_readsb_filenames_every_5s ! (m - 1)"
proof -
  from no_probe_after_limit[of example_cfg 2 world_all_ok]
  obtain m sel where
    h: "head_urls (trace (snd (download_data example_cfg 2 world_all_ok))) =
       head_urls (trace world_all_ok) @ map ((@) (base_url_of example_cfg)) (take m generate_readsb_filenames_every_5s)"
    and u: "upload_keys (trace (snd (download_data example_cfg 2 world_all_ok))) =
       upload_keys (trace world_all_ok) @ map ((@) S3_PREFIX) sel"
    and l: "0 < (2::int) \<and> int (length sel) = 2 \<longrightarrow>
        0 < m \<and> last sel = generate_readsb_filenames_every_5s ! (m - 1)"
    by blast
  from download_data_all_ok[OF _ world_all_ok_bucket(3,4) world_all_ok_probes world_all_ok_bucket(1,2), of 2]
  have "upload_keys (trace (snd (download_data example_cfg 2 world_all_ok))) =
          upload_keys (trace world_all_ok) @ map ((@) S3_PREFIX) (take 2 generate_readsb_filenames_every_5s)"
    by simp
  with u have "map ((@) S3_PREFIX) sel = map ((@) S3_PREFIX) (take 2 generate_readsb_filenames_every_5s)"
    by simp
  then have sel: "sel = take 2 generate_readsb_filenames_every_5s"
    by (simp add: inj_map_eq_map inj_on_def)
  then have "int (length sel) = 2"
    by (simp add: length_generate)
  with l sel have "0 < m \<and> last (take 2 generate_readsb_filenames_every_5s) = generate_readsb_filenames_every_5s ! (m - 1)"
    by simp
  with h show ?thesis
    by (intro exI[of _ m]) (simp add: world_all_ok_def)
qed

section \<open>Paths and the file system\<close>

lemma dirs_along_Nil [simp]: "dirs_along f start [] = (node_at f start = Some Dir)"
  by (simp add: dirs_along_def)

lemma dirs_along_Cons:
  "dirs_along f start (c # cs) = (node_at f start = Some Dir \<and> dirs_along f (start @ [c]) cs)"
proof
  assume h: "dirs_along f start (c # cs)"
  have "node_at f (start @ take 0 (c # cs)) = Some Dir"
    using h unfolding dirs_along_def by blast
  moreover have "node_at f ((start @ [c]) @ take i cs) = Some Dir" if "i \<le> length cs" for i
  proof -
    have "Suc i \<le> length (c # cs)" using that by simp
    then have "node_at f (start @ take (Suc i) (c # cs)) = Some Dir"
      using h unfolding dirs_along_def by blast
    then show ?thesis by simp
  qed
  ultimately show "node_at f start = Some Dir \<and> dirs_along f (start @ [c]) cs"
    by (simp add: dirs_along_def)
next
  assume h: "node_at f start = Some Dir \<and> dirs_along f (start @ [c]) cs"
  have "node_at f (start @ take i (c # cs)) = Some Dir" if "i \<le> length (c # cs)" for i
  proof (cases i)
    case 0
    with h show ?thesis by simp
  next
    case (Suc j)
    with that have "j \<le> length cs" by simp
    then have "node_at f ((start @ [c]) @ take j cs) = Some Dir"
      using h unfolding dirs_along_def by blast
    with Suc show ?thesis by simp
  qed
  then show "dirs_along f start (c # cs)"
    by (simp add: dirs_along_def)
qed

lemma dirs_along_start: "dirs_along f start cs \<Longrightarrow> node_at f start = Some Dir"
  by (cases cs) (simp_all add: dirs_along_Cons)

lemma dirs_along_snoc:
  "dirs_along f start (cs @ [c]) = (dirs_along f start cs \<and> node_at f (start @ cs @ [c]) = Some Dir)"
  by (induction cs arbitrary: start) (auto simp: dirs_along_Cons)

lemma dirs_along_butlast:
  "cs \<noteq> [] \<Longrightarrow> dirs_along f start cs = (dirs_along f start (butlast cs) \<and> node_at f (start @ cs) = Some Dir)"
  using dirs_along_snoc[of f start "butlast cs" "last cs"] by simp

lemma dirs_along_append:
  "dirs_along f start (cs @ ds) = (dirs_along f start cs \<and> dirs_along f (start @ cs) ds)"
  by (induction cs arbitrary: start) (auto simp: dirs_along_Cons dest: dirs_along_start)

lemma check_dir_Inr: "(check_dir f p = Inr u) = (node_at f p = Some Dir)"
  by (auto simp: check_dir_def split: option.splits node.splits)

lemma walk_dirs_lexical:
  "''..'' \<notin> set cs \<Longrightarrow> (walk_dirs f start cs = Inr d) = (d = start @ cs \<and> dirs_along f start cs)"
proof (induction cs arbitrary: start)
  case Nil
  then show ?case
    by (auto simp: check_dir_def split: option.splits node.splits)
next
  case (Cons c cs)
  then show ?case
    by (auto simp: check_dir_def dirs_along_Cons step_def split: option.splits node.splits)
qed

lemma walk_dirs_ok:
  "''..'' \<notin> set cs \<Longrightarrow> dirs_along f start cs \<Longrightarrow> walk_dirs f start cs = Inr (start @ cs)"
  by (simp add: walk_dirs_lexical)

lemma last_not: "x \<notin> set cs \<Longrightarrow> cs \<noteq> [] \<Longrightarrow> last cs \<noteq> x"
  using last_in_set[of cs] by blast

lemma notin_butlast: "x \<notin> set cs \<Longrightarrow> x \<notin> set (butlast cs)"
  by (meson in_set_butlastD)

lemma fs_is_dir_lexical:
  assumes "''..'' \<notin> set (snd p)"
  shows "fs_is_dir f wd p = dirs_along f (start_of wd p) (snd p)"
proof (cases "snd p = []")
  case True
  then show ?thesis by (simp add: fs_is_dir_def resolve_def)
next
  case False
  have l: "last (snd p) \<noteq> ''..''" using assms False by (rule last_not)
  have b: "''..'' \<notin> set (butlast (snd p))" using assms by (rule notin_butlast)
  show ?thesis
  proof (cases "walk_dirs f (start_of wd p) (butlast (snd p))")
    case (Inl e)
    then have "\<not> dirs_along f (start_of wd p) (butlast (snd p))"
      using walk_dirs_ok[OF b] by fastforce
    with Inl False show ?thesis
      by (simp add: fs_is_dir_def resolve_def dirs_along_butlast)
  next
    case (Inr d)
    then have "d = start_of wd p @ butlast (snd p)" "dirs_along f (start_of wd p) (butlast (snd p))"
      using walk_dirs_lexical[OF b] by auto
    with Inr False l show ?thesis
      by (simp add: fs_is_dir_def resolve_def dirs_along_butlast step_def)
  qed
qed


lemma os_mkdir_Inr:
  assumes "os_mkdir f wd p = Inr f1" and "''..'' \<notin> set (snd p)"
  shows "snd p \<noteq> [] \<and> dirs_along f (start_of wd p) (butlast (snd p)) \<and>
         f (start_of wd p @ snd p) = None \<and> f1 = f(start_of wd p @ snd p \<mapsto> Dir)"
proof -
  have ne: "snd p \<noteq> []"
    using assms(1) by (auto simp: os_mkdir_def split: option.splits)
  have b: "''..'' \<notin> set (butlast (snd p))" using assms(2) by (rule notin_butlast)
  from assms(1) ne obtain d where w: "walk_dirs f (start_of wd p) (butlast (snd p)) = Inr d"
    by (auto simp: os_mkdir_def split: sum.splits)
  then have d: "d = start_of wd p @ butlast (snd p)" and da: "dirs_along f (start_of wd p) (butlast (snd p))"
    using walk_dirs_lexical[OF b] by auto
  have q: "d @ [last (snd p)] = start_of wd p @ snd p"
    using d ne by simp
  from assms(1) ne w have "f (d @ [last (snd p)]) = None \<and> f1 = f(d @ [last (snd p)] \<mapsto> Dir)"
    by (auto simp: os_mkdir_def split: if_splits option.splits)
  with ne da q show ?thesis by simp
qed

lemma dirs_along_upd_new:
  assumes "dirs_along f start cs" 
  shows "dirs_along (f(x \<mapsto> Dir)) start cs"
  using assms by (auto simp: dirs_along_def node_at_def)

text \<open>What a successful \<^verbatim>\<open>mkdir(parents=True, exist_ok=True)\<close> leaves.\<close>

lemma path_mkdir_Inr:
  assumes "path_mkdir f wd p = Inr f1" and "''..'' \<notin> set (snd p)"
  shows "dirs_along f1 (start_of wd p) (snd p) \<and>
         (\<forall>x. f1 x \<noteq> f x \<longrightarrow> f x = None \<and> f1 x = Some Dir \<and> prefix x (start_of wd p @ snd p))"
  using assms
proof (induction f wd p arbitrary: f1 rule: path_mkdir.induct)
  case (1 f wd p)
  let ?s = "start_of wd p"
  let ?q = "?s @ snd p"
  have created: "dirs_along g ?s (snd p) \<and>
         (\<forall>x. g x \<noteq> f0 x \<longrightarrow> f0 x = None \<and> g x = Some Dir \<and> prefix x ?q)"
    if "os_mkdir f0 wd p = Inr g" for f0 g
  proof -
    from os_mkdir_Inr[OF that "1.prems"(2)]
    have ne: "snd p \<noteq> []" and da: "dirs_along f0 ?s (butlast (snd p))"
      and n: "f0 ?q = None" and g: "g = f0(?q \<mapsto> Dir)"
      by simp_all
    have "dirs_along g ?s (butlast (snd p))"
      unfolding g using da by (rule dirs_along_upd_new)
    moreover have "node_at g ?q = Some Dir"
      unfolding g by (simp add: node_at_def)
    ultimately have "dirs_along g ?s (snd p)"
      using ne by (simp add: dirs_along_butlast)
    then show ?thesis
      unfolding g using n by auto
  qed
  note eq = "1.prems"(1)[unfolded path_mkdir.simps[of f wd p]]
  show ?case
  proof (cases "os_mkdir f wd p")
    case (Inr g)
    with eq have "f1 = g"
      by simp
    with created[OF Inr] show ?thesis by simp
  next
    case (Inl e)
    show ?thesis
    proof (cases "e = FileNotFoundError")
      case False
      with Inl eq have "fs_is_dir f wd p \<and> f1 = f"
        by (simp split: if_splits)
      then have "fs_is_dir f wd p" and "f1 = f"
        by simp_all
      then show ?thesis
        using fs_is_dir_lexical[OF "1.prems"(2)] by simp
    next
      case True
      with Inl eq have ne: "snd p \<noteq> []"
        by (simp split: if_splits)
      from Inl True ne eq obtain g where
        g: "path_mkdir f wd (fst p, butlast (snd p)) = Inr g"
        by (cases "path_mkdir f wd (fst p, butlast (snd p))") simp_all
      have b: "''..'' \<notin> set (snd (fst p, butlast (snd p)))"
        using "1.prems"(2) by (simp add: notin_butlast)
      have st: "start_of wd (fst p, butlast (snd p)) = ?s"
        by (simp add: start_of_def)
      from "1.IH"[OF Inl True ne g b]
      have ih1: "dirs_along g ?s (butlast (snd p))"
        and ih2: "\<forall>x. g x \<noteq> f x \<longrightarrow> f x = None \<and> g x = Some Dir \<and> prefix x (?s @ butlast (snd p))"
        unfolding st by simp_all
      have pre: "prefix x (?s @ butlast (snd p)) \<Longrightarrow> prefix x ?q" for x
        using ne prefix_prefix[of x "?s @ butlast (snd p)" "[last (snd p)]"] by simp
      show ?thesis
      proof (cases "os_mkdir g wd p")
        case (Inr h)
        with Inl True ne g eq have "f1 = h"
          by simp
        have c1: "dirs_along h ?s (snd p)"
          and c2: "\<forall>x. h x \<noteq> g x \<longrightarrow> g x = None \<and> h x = Some Dir \<and> prefix x ?q"
          using created[OF Inr] by simp_all
        have "f x = None \<and> h x = Some Dir \<and> prefix x ?q" if "h x \<noteq> f x" for x
        proof (cases "h x = g x")
          case True
          with that ih2 pre[of x] show ?thesis by auto
        next
          case False
          with c2 have "g x = None \<and> h x = Some Dir \<and> prefix x ?q"
            by blast
          then have gx: "g x = None" and hx: "h x = Some Dir" and px: "prefix x ?q"
            by simp_all
          have "f x = None"
          proof (cases "g x = f x")
            case True
            with gx show ?thesis by simp
          next
            case False
            with ih2 show ?thesis by blast
          qed
          with hx px show ?thesis by simp
        qed
        with c1 \<open>f1 = h\<close> show ?thesis by blast
      next
        case e2: (Inl e2)
        with Inl True ne g eq have "fs_is_dir g wd p \<and> f1 = g"
          by (simp split: if_splits)
        then have "fs_is_dir g wd p" and "f1 = g"
          by simp_all
        moreover have "f x = None \<and> g x = Some Dir \<and> prefix x ?q" if "g x \<noteq> f x" for x
          using that ih2 pre[of x] by blast
        ultimately show ?thesis
          using fs_is_dir_lexical[OF "1.prems"(2), of g wd] by simp
      qed
    qed
  qed
qed


lemma write_file_Inr:
  assumes "write_file f wd p body = Inr f1" and "''..'' \<notin> set (snd p)"
  shows "snd p \<noteq> [] \<and> dirs_along f (start_of wd p) (butlast (snd p)) \<and>
         f (start_of wd p @ snd p) \<noteq> Some Dir \<and> f1 = f(start_of wd p @ snd p \<mapsto> File body)"
proof -
  have ne: "snd p \<noteq> []"
    using assms(1) by (auto simp: write_file_def)
  have b: "''..'' \<notin> set (butlast (snd p))" using assms(2) by (rule notin_butlast)
  from assms(1) ne obtain d where w: "walk_dirs f (start_of wd p) (butlast (snd p)) = Inr d"
    by (auto simp: write_file_def split: sum.splits)
  then have d: "d = start_of wd p @ butlast (snd p)" and da: "dirs_along f (start_of wd p) (butlast (snd p))"
    using walk_dirs_lexical[OF b] by auto
  have q: "d @ [last (snd p)] = start_of wd p @ snd p"
    using d ne by simp
  from assms(1) ne w have "f (d @ [last (snd p)]) \<noteq> Some Dir \<and> f1 = f(d @ [last (snd p)] \<mapsto> File body)"
    by (auto simp: write_file_def split: if_splits option.splits node.splits)
  with ne da q show ?thesis by simp
qed

lemma write_file_ok:
  assumes "''..'' \<notin> set (snd p)" and "snd p \<noteq> []" and "dirs_along f (start_of wd p) (butlast (snd p))"
    and "f (start_of wd p @ snd p) \<noteq> Some Dir"
  shows "write_file f wd p body = Inr (f(start_of wd p @ snd p \<mapsto> File body))"
proof -
  have b: "''..'' \<notin> set (butlast (snd p))" using assms(1) by (rule notin_butlast)
  have l: "last (snd p) \<noteq> ''..''" using assms(1,2) by (rule last_not)
  have q: "start_of wd p @ butlast (snd p) @ [last (snd p)] = start_of wd p @ snd p"
    using assms(2) by simp
  show ?thesis
    using assms(2,4) l walk_dirs_ok[OF b assms(3)] q
    by (auto simp: write_file_def split: option.splits node.splits)
qed


lemma resolve_lexical:
  assumes "resolve f wd p = Inr q" and "''..'' \<notin> set (snd p)"
  shows "q = start_of wd p @ snd p \<and> (snd p \<noteq> [] \<longrightarrow> dirs_along f (start_of wd p) (butlast (snd p)))"
proof (cases "snd p = []")
  case True
  with assms(1) show ?thesis by (simp add: resolve_def)
next
  case False
  have b: "''..'' \<notin> set (butlast (snd p))" using assms(2) by (rule notin_butlast)
  have l: "last (snd p) \<noteq> ''..''" using assms(2) False by (rule last_not)
  from assms(1) False obtain d where w: "walk_dirs f (start_of wd p) (butlast (snd p)) = Inr d"
    and q: "q = step d (last (snd p))"
    by (auto simp: resolve_def split: sum.splits)
  from w have "d = start_of wd p @ butlast (snd p)" and "dirs_along f (start_of wd p) (butlast (snd p))"
    using walk_dirs_lexical[OF b] by auto
  with q l False show ?thesis by (simp add: step_def)
qed

lemma fs_exists_lexical:
  assumes "''..'' \<notin> set (snd p)" and "snd p \<noteq> []" and "dirs_along f (start_of wd p) (butlast (snd p))"
  shows "fs_exists f wd p = (node_at f (start_of wd p @ snd p) \<noteq> None)"
proof -
  have b: "''..'' \<notin> set (butlast (snd p))" using assms(1) by (rule notin_butlast)
  have l: "last (snd p) \<noteq> ''..''" using assms(1,2) by (rule last_not)
  have "resolve f wd p = Inr (start_of wd p @ snd p)"
    using assms(2) l walk_dirs_ok[OF b assms(3)] by (simp add: resolve_def step_def)
  then show ?thesis by (simp add: fs_exists_def)
qed

lemma wf_fs_above:
  assumes "wf_fs f" and "f (y @ zs) \<noteq> None" and "zs \<noteq> []"
  shows "node_at f y = Some Dir"
  using assms(2,3)
proof (induction zs rule: rev_induct)
  case Nil
  then show ?case by simp
next
  case (snoc z zs)
  have "y @ zs @ [z] \<noteq> []" by simp
  with assms(1) snoc.prems(1) have "node_at f (butlast (y @ zs @ [z])) = Some Dir"
    unfolding wf_fs_def by blast
  moreover have "butlast (y @ zs @ [z]) = y @ zs"
    using butlast_snoc[of "y @ zs" z] by simp
  ultimately have n: "node_at f (y @ zs) = Some Dir" by simp
  show ?case
  proof (cases "zs = []")
    case True
    with n show ?thesis by simp
  next
    case False
    with n have "f (y @ zs) \<noteq> None" by (simp add: node_at_def)
    from snoc.IH[OF this False] show ?thesis .
  qed
qed

lemma wf_fs_dirs_along:
  assumes "wf_fs f" and "f (s @ cs) \<noteq> None" and "cs \<noteq> []"
  shows "dirs_along f s (butlast cs)"
  unfolding dirs_along_def
proof (intro allI impI)
  fix i assume i: "i \<le> length (butlast cs)"
  have "length cs \<noteq> 0" using assms(3) by simp
  with i have il: "i < length cs" unfolding length_butlast by linarith
  then have "take i (butlast cs) = take i cs" by (rule take_butlast)
  then have "s @ cs = (s @ take i (butlast cs)) @ drop i cs"
    by simp
  moreover have "drop i cs \<noteq> []" using il by simp
  ultimately show "node_at f (s @ take i (butlast cs)) = Some Dir"
    using wf_fs_above[OF assms(1), of "s @ take i (butlast cs)" "drop i cs"] assms(2) by simp
qed

lemma prefix_append_self: "prefix (q @ r) q \<Longrightarrow> r = []"
  by (auto simp: prefix_def)

lemma path_mkdir_below:
  assumes "path_mkdir f wd p = Inr f1" and "''..'' \<notin> set (snd p)" and "r \<noteq> []"
  shows "f1 (start_of wd p @ snd p @ r) = f (start_of wd p @ snd p @ r)"
proof (rule ccontr)
  assume "f1 (start_of wd p @ snd p @ r) \<noteq> f (start_of wd p @ snd p @ r)"
  with path_mkdir_Inr[OF assms(1,2)] have "prefix (start_of wd p @ snd p @ r) (start_of wd p @ snd p)"
    by blast
  then have "prefix ((start_of wd p @ snd p) @ r) (start_of wd p @ snd p)" by simp
  then have "r = []" by (rule prefix_append_self)
  with assms(3) show False by simp
qed

lemma download_keys_simps [simp]:
  "download_keys [] = []"
  "download_keys (a @ b) = download_keys a @ download_keys b"
  "download_keys (S3Download bk k d # tr) = k # download_keys tr"
  "download_keys (FsExists p # tr) = download_keys tr"
  "download_keys (FsRmtree p # tr) = download_keys tr"
  "download_keys (FsMkdir p # tr) = download_keys tr"
  "download_keys (S3List bk pf # tr) = download_keys tr"
  by (simp_all add: download_keys_def)

lemma mkdir_parents_Inr:
  assumes "fst (mkdir_parents p w) = Inr u"
  shows "\<exists>f1. path_mkdir (fs w) (cwd w) p = Inr f1 \<and>
              fs (snd (mkdir_parents p w)) = f1 \<and> cwd (snd (mkdir_parents p w)) = cwd w \<and>
              s3 (snd (mkdir_parents p w)) = s3 w \<and>
              trace (snd (mkdir_parents p w)) = trace w @ [FsMkdir p]"
  using assms by (auto simp: mkdir_parents_def Let_def log_def split: sum.splits)

lemma shutil_rmtree_Inr:
  assumes "fst (shutil_rmtree p w) = Inr u" and "''..'' \<notin> set (snd p)"
  shows "fs (snd (shutil_rmtree p w)) = (\<lambda>x. if prefix (location w p) x then None else fs w x) \<and>
         node_at (fs w) (location w p) = Some Dir \<and>
         (snd p \<noteq> [] \<longrightarrow> dirs_along (fs w) (start_of (cwd w) p) (butlast (snd p))) \<and>
         cwd (snd (shutil_rmtree p w)) = cwd w \<and> s3 (snd (shutil_rmtree p w)) = s3 w \<and>
         trace (snd (shutil_rmtree p w)) = trace w @ [FsRmtree p]"
proof -
  from assms(1) obtain q where r: "resolve (fs w) (cwd w) p = Inr q"
    by (cases "resolve (fs w) (cwd w) p") (simp_all add: shutil_rmtree_def Let_def)
  from resolve_lexical[OF r assms(2)]
  have q: "q = location w p" and da: "snd p \<noteq> [] \<longrightarrow> dirs_along (fs w) (start_of (cwd w) p) (butlast (snd p))"
    by (simp_all add: location_def)
  from assms(1) r have n: "node_at (fs w) q = Some Dir"
    by (auto simp: shutil_rmtree_def Let_def split: option.splits node.splits)
  show ?thesis
    using r n da q by (simp add: shutil_rmtree_def Let_def log_def)
qed

lemma log_fields [simp]:
  "fs (log e w) = fs w" "cwd (log e w) = cwd w" "s3 (log e w) = s3 w"
  "trace (log e w) = trace w @ [e]" "http_head (log e w) = http_head w" "http_get (log e w) = http_get w"
  by (simp_all add: log_def)

lemma location_log [simp]: "location (log e w) p = location w p"
  by (simp add: location_def)

lemma path_mkdir_existing:
  assumes "dirs_along f (start_of wd p) (snd p)" and "''..'' \<notin> set (snd p)"
  shows "path_mkdir f wd p = Inr f"
proof -
  have d: "fs_is_dir f wd p"
    using assms by (simp add: fs_is_dir_lexical)
  have "os_mkdir f wd p = Inl FileExistsError"
  proof (cases "snd p = []")
    case True
    with assms(1) show ?thesis by (simp add: os_mkdir_def)
  next
    case False
    have b: "''..'' \<notin> set (butlast (snd p))" using assms(2) by (rule notin_butlast)
    have l: "last (snd p) \<noteq> ''..''" using assms(2) False by (rule last_not)
    from assms(1) False have da: "dirs_along f (start_of wd p) (butlast (snd p))"
      and n: "node_at f (start_of wd p @ snd p) = Some Dir"
      by (simp_all add: dirs_along_butlast)
    from n False have "f (start_of wd p @ snd p) = Some Dir"
      by (simp add: node_at_def)
    moreover have "start_of wd p @ butlast (snd p) @ [last (snd p)] = start_of wd p @ snd p"
      using False by simp
    ultimately show ?thesis
      using False l walk_dirs_ok[OF b da] by (simp add: os_mkdir_def)
  qed
  with d show ?thesis
    by (subst path_mkdir.simps) simp
qed

lemma dirs_along_mono:
  assumes "dirs_along f s cs" and "\<forall>x. g x \<noteq> f x \<longrightarrow> f x \<noteq> Some Dir"
  shows "dirs_along g s cs"
  unfolding dirs_along_def
proof (intro allI impI)
  fix i assume "i \<le> length cs"
  define x where "x = s @ take i cs"
  with assms(1) \<open>i \<le> length cs\<close> have n: "node_at f x = Some Dir"
    unfolding dirs_along_def by blast
  have "node_at g x = Some Dir"
  proof (cases "x = []")
    case True
    then show ?thesis by (simp add: node_at_def)
  next
    case False
    with n have "f x = Some Dir" by (simp add: node_at_def)
    have "g x = f x"
    proof (rule ccontr)
      assume "g x \<noteq> f x"
      with assms(2) have "f x \<noteq> Some Dir" by blast
      with \<open>f x = Some Dir\<close> show False by simp
    qed
    with \<open>f x = Some Dir\<close> have "g x = Some Dir" by simp
    with False show ?thesis by (simp add: node_at_def)
  qed
  then show "node_at g (s @ take i cs) = Some Dir"
    by (simp add: x_def)
qed

text \<open>What a successful reset of a directory leaves.\<close>

lemma ensure_empty_dir_Inr:
  assumes ok: "fst (ensure_empty_dir p w) = Inr u" and dd: "''..'' \<notin> set (snd p)"
    and ne: "snd p \<noteq> []" and wf: "wf_fs (fs w)"
  shows "dirs_along (fs (snd (ensure_empty_dir p w))) (start_of (cwd w) p) (snd p) \<and>
         entries_below (snd (ensure_empty_dir p w)) (location w p) = {} \<and>
         cwd (snd (ensure_empty_dir p w)) = cwd w \<and>
         s3 (snd (ensure_empty_dir p w)) = s3 w \<and>
         download_keys (trace (snd (ensure_empty_dir p w))) = download_keys (trace w)"
proof -
  let ?s = "start_of (cwd w) p"
  let ?w0 = "log (FsExists p) w"
  have below: "dirs_along (fs wm) ?s (snd p) \<and> entries_below wm (location w p) = {} \<and>
               cwd wm = cwd w \<and> s3 wm = s3 w \<and> download_keys (trace wm) = download_keys (trace v)"
    if m: "fst (mkdir_parents p v) = Inr u" and wm: "wm = snd (mkdir_parents p v)"
      and c: "cwd v = cwd w" and s: "s3 v = s3 w"
      and e: "\<forall>r. r \<noteq> [] \<longrightarrow> fs v (location w p @ r) = None" for v wm
  proof -
    from mkdir_parents_Inr[OF m] obtain f1 where
      pm: "path_mkdir (fs v) (cwd v) p = Inr f1" and f: "fs wm = f1" and c1: "cwd wm = cwd v"
      and s1: "s3 wm = s3 v" and t1: "trace wm = trace v @ [FsMkdir p]"
      unfolding wm by blast
    have da: "dirs_along f1 ?s (snd p)"
      using path_mkdir_Inr[OF pm dd] c by simp
    have h: "fs wm (location w p @ r) = None" if "r \<noteq> []" for r
      using path_mkdir_below[OF pm dd that] e that f c by (simp add: location_def)
    have "r \<notin> entries_below wm (location w p)" for r
    proof (cases "r = []")
      case True
      then show ?thesis by (simp add: entries_below_def)
    next
      case False
      from h[OF False] show ?thesis by (simp add: entries_below_def)
    qed
    then have "entries_below wm (location w p) = {}"
      by (simp add: all_not_in_conv[symmetric])
    with da f c c1 s s1 t1 show ?thesis by simp
  qed
  show ?thesis
  proof (cases "fs_exists (fs w) (cwd w) p")
    case True
    obtain r wr where rt: "shutil_rmtree p ?w0 = (r, wr)"
      by (cases "shutil_rmtree p ?w0")
    have e1: "ensure_empty_dir p w = (case r of Inl e \<Rightarrow> (Inl e, wr) | Inr x \<Rightarrow> mkdir_parents p wr)"
      using True rt by (simp add: ensure_empty_dir_def path_exists_def split: sum.splits)
    from ok e1 obtain x where r: "r = Inr x" by (cases r) simp_all
    with e1 have e2: "ensure_empty_dir p w = mkdir_parents p wr" by simp
    from rt r have "fst (shutil_rmtree p ?w0) = Inr x" and wr: "wr = snd (shutil_rmtree p ?w0)"
      by simp_all
    note rm = shutil_rmtree_Inr[OF this(1) dd, unfolded wr[symmetric] log_fields location_log]
    from rm
    have f: "fs wr = (\<lambda>x. if prefix (location w p) x then None else fs w x)"
      and c: "cwd wr = cwd w" and s: "s3 wr = s3 w" and t: "trace wr = trace w @ [FsExists p, FsRmtree p]"
      by simp_all
    have e: "\<forall>r. r \<noteq> [] \<longrightarrow> fs wr (location w p @ r) = None"
      unfolding f by simp
    have m: "fst (mkdir_parents p wr) = Inr u"
      using ok e2 by simp
    have dk: "download_keys (trace wr) = download_keys (trace w)"
      unfolding t by simp
    from below[OF m refl c s e] show ?thesis
      unfolding e2 dk by simp
  next
    case False
    have e2: "ensure_empty_dir p w = mkdir_parents p ?w0"
      using False by (simp add: ensure_empty_dir_def path_exists_def)
    have e: "\<forall>r. r \<noteq> [] \<longrightarrow> fs ?w0 (location w p @ r) = None"
    proof (intro allI impI, rule ccontr)
      fix r :: "string list" assume r: "r \<noteq> []" and "fs ?w0 (location w p @ r) \<noteq> None"
      then have n: "fs w (?s @ (snd p @ r)) \<noteq> None" by (simp add: location_def)
      have "snd p @ r \<noteq> []" using r by simp
      from wf_fs_dirs_along[OF wf n this] have "dirs_along (fs w) ?s (snd p @ butlast r)"
        using r by (simp add: butlast_append)
      then have "dirs_along (fs w) ?s (snd p)"
        by (simp add: dirs_along_append)
      then have "dirs_along (fs w) ?s (butlast (snd p))" and "node_at (fs w) (?s @ snd p) = Some Dir"
        using ne by (simp_all add: dirs_along_butlast)
      then have "fs_exists (fs w) (cwd w) p"
        using fs_exists_lexical[OF dd ne, of "fs w" "cwd w"] by simp
      with False show False by simp
    qed
    have m: "fst (mkdir_parents p ?w0) = Inr u"
      using ok e2 by simp
    have c: "cwd ?w0 = cwd w" and s: "s3 ?w0 = s3 w"
      and dk: "download_keys (trace ?w0) = download_keys (trace w)"
      by simp_all
    from below[OF m refl c s e] show ?thesis
      unfolding e2 dk by simp
  qed
qed

lemma download_file_Inr:
  assumes "fst (download_file b k dest w) = Inr u"
  shows "\<exists>body f1. write_file (fs w) (cwd w) dest body = Inr f1 \<and>
           fs (snd (download_file b k dest w)) = f1 \<and>
           cwd (snd (download_file b k dest w)) = cwd w \<and>
           s3 (snd (download_file b k dest w)) = s3 w \<and>
           trace (snd (download_file b k dest w)) = trace w @ [S3Download b k dest]"
  using assms by (auto simp: download_file_def Let_def split: option.splits sum.splits)

lemma files_below_cong:
  assumes "\<forall>x. g x \<noteq> fs w x \<longrightarrow> fs w x = None \<and> g x = Some Dir" and "fs v = g"
  shows "files_below v d = files_below w d"
proof -
  have "(\<exists>body. g x = Some (File body)) = (\<exists>body. fs w x = Some (File body))" for x
  proof (cases "g x = fs w x")
    case True
    then show ?thesis by simp
  next
    case False
    with assms(1) have "fs w x = None \<and> g x = Some Dir" by blast
    then show ?thesis by simp
  qed
  then show ?thesis
    by (simp add: files_below_def assms(2))
qed

text \<open>One object that is not a directory marker, fetched with success.\<close>

lemma prepare_step:
  assumes m: "fst (mkdir_parents (path_parent (path_join dp kp)) w) = Inr u1"
    and d: "fst (download_file b k (path_join dp kp) (snd (mkdir_parents (path_parent (path_join dp kp)) w))) = Inr u2"
    and rel: "\<not> fst kp" and dk: "''..'' \<notin> set (snd kp)" and dd: "''..'' \<notin> set (snd dp)"
    and da: "dirs_along (fs w) (start_of (cwd w) dp) (snd dp)" and ne: "snd dp \<noteq> []"
    and w2: "w2 = snd (download_file b k (path_join dp kp) (snd (mkdir_parents (path_parent (path_join dp kp)) w)))"
  shows "cwd w2 = cwd w \<and> s3 w2 = s3 w \<and> dirs_along (fs w2) (start_of (cwd w) dp) (snd dp) \<and>
         files_below w2 (location w dp) = insert (snd kp) (files_below w (location w dp)) \<and>
         download_keys (trace w2) = download_keys (trace w) @ [k]"
proof -
  let ?dest = "path_join dp kp"
  let ?s = "start_of (cwd w) dp"
  let ?q = "location w dp"
  let ?w1 = "snd (mkdir_parents (path_parent ?dest) w)"
  have dest: "?dest = (fst dp, snd dp @ snd kp)"
    using rel by (simp add: path_join_def)
  have sd: "start_of (cwd w) ?dest = ?s" "start_of (cwd w) (path_parent ?dest) = ?s"
    by (simp_all add: dest start_of_def path_parent_def)
  have nd: "''..'' \<notin> set (snd ?dest)"
    using dk dd by (simp add: dest)
  have np: "''..'' \<notin> set (snd (path_parent ?dest))"
    using nd by (simp add: path_parent_def notin_butlast)
  from mkdir_parents_Inr[OF m] obtain f1 where
    pm: "path_mkdir (fs w) (cwd w) (path_parent ?dest) = Inr f1" and f1: "fs ?w1 = f1"
    and c1: "cwd ?w1 = cwd w" and s1: "s3 ?w1 = s3 w"
    and t1: "trace ?w1 = trace w @ [FsMkdir (path_parent ?dest)]"
    by blast
  from path_mkdir_Inr[OF pm np]
  have ch: "\<forall>x. f1 x \<noteq> fs w x \<longrightarrow> fs w x = None \<and> f1 x = Some Dir"
    by blast
  then have "\<forall>x. f1 x \<noteq> fs w x \<longrightarrow> fs w x \<noteq> Some Dir"
    by simp
  from dirs_along_mono[OF da this] have da1: "dirs_along f1 ?s (snd dp)" .
  have fb1: "files_below ?w1 ?q = files_below w ?q"
    using ch f1 by (rule files_below_cong)
  from download_file_Inr[OF d] obtain body f2 where
    wf: "write_file (fs ?w1) (cwd ?w1) ?dest body = Inr f2" and f2: "fs w2 = f2"
    and c2: "cwd w2 = cwd ?w1" and s2: "s3 w2 = s3 ?w1"
    and t2: "trace w2 = trace ?w1 @ [S3Download b k ?dest]"
    unfolding w2 by blast
  from write_file_Inr[OF wf nd]
  have nt: "f1 (?s @ snd dp @ snd kp) \<noteq> Some Dir"
    and f2e: "f2 = f1(?s @ snd dp @ snd kp \<mapsto> File body)"
    unfolding f1 c1 sd by (simp_all add: dest)
  have q: "?q = ?s @ snd dp"
    by (simp add: location_def)
  have nq: "node_at f1 ?q = Some Dir"
    using da1 ne unfolding q by (simp add: dirs_along_butlast)
  have kne: "snd kp \<noteq> []"
  proof
    assume "snd kp = []"
    with nt have "f1 ?q \<noteq> Some Dir" by (simp add: q)
    moreover have "?q \<noteq> []" using ne by (simp add: q)
    ultimately show False using nq by (simp add: node_at_def)
  qed
  have "\<forall>x. f2 x \<noteq> f1 x \<longrightarrow> f1 x \<noteq> Some Dir"
    unfolding f2e using nt by simp
  from dirs_along_mono[OF da1 this] have da2: "dirs_along f2 ?s (snd dp)" .
  have "files_below w2 ?q = insert (snd kp) (files_below ?w1 ?q)"
  proof (rule set_eqI)
    fix r
    show "(r \<in> files_below w2 ?q) = (r \<in> insert (snd kp) (files_below ?w1 ?q))"
    proof (cases "r = snd kp")
      case True
      with kne show ?thesis
        by (simp add: files_below_def f2 f2e q)
    next
      case False
      then have "?q @ r \<noteq> ?s @ snd dp @ snd kp" by (simp add: q)
      then have "f2 (?q @ r) = f1 (?q @ r)" unfolding f2e by simp
      with False show ?thesis
        by (simp add: files_below_def f2 f1)
    qed
  qed
  with fb1 have fb: "files_below w2 ?q = insert (snd kp) (files_below w ?q)" by simp
  have "download_keys (trace w2) = download_keys (trace w) @ [k]"
    unfolding t2 t1 by simp
  with fb da2 f2 c1 c2 s1 s2 show ?thesis by simp
qed

lemma prepare_objects_Inr:
  assumes "fst (prepare_objects bucket dp objs w) = Inr u"
    and "''..'' \<notin> set (snd dp)" and "snd dp \<noteq> []"
    and "\<forall>ob \<in> set objs. \<not> endswith_slash (Key ob) \<longrightarrow>
           \<not> fst (key_path (Key ob)) \<and> ''..'' \<notin> set (snd (key_path (Key ob)))"
    and "dirs_along (fs w) (start_of (cwd w) dp) (snd dp)"
  shows "files_below (snd (prepare_objects bucket dp objs w)) (location w dp) =
           files_below w (location w dp) \<union>
           {snd (key_path (Key ob)) | ob. ob \<in> set objs \<and> \<not> endswith_slash (Key ob)}"
  using assms
proof (induction objs arbitrary: w)
  case Nil
  then show ?case by simp
next
  case (Cons ob objs)
  show ?case
  proof (cases "endswith_slash (Key ob)")
    case True
    then have eq: "prepare_objects bucket dp (ob # objs) w = prepare_objects bucket dp objs w"
      by simp
    from Cons.prems(4) have p4: "\<forall>ob \<in> set objs. \<not> endswith_slash (Key ob) \<longrightarrow>
           \<not> fst (key_path (Key ob)) \<and> ''..'' \<notin> set (snd (key_path (Key ob)))"
      by simp
    from Cons.prems(1) have p1: "fst (prepare_objects bucket dp objs w) = Inr u"
      unfolding eq .
    have "{snd (key_path (Key x)) | x. x \<in> set (ob # objs) \<and> \<not> endswith_slash (Key x)} =
          {snd (key_path (Key x)) | x. x \<in> set objs \<and> \<not> endswith_slash (Key x)}"
      using True by auto
    with Cons.IH[OF p1 Cons.prems(2,3) p4 Cons.prems(5)] show ?thesis
      unfolding eq by simp
  next
    case False
    let ?kp = "key_path (Key ob)"
    let ?dest = "path_join dp ?kp"
    obtain r1 w1 where m: "mkdir_parents (path_parent ?dest) w = (r1, w1)"
      by (cases "mkdir_parents (path_parent ?dest) w")
    obtain r2 w2 where d: "download_file bucket (Key ob) ?dest w1 = (r2, w2)"
      by (cases "download_file bucket (Key ob) ?dest w1")
    have un: "prepare_objects bucket dp (ob # objs) w =
                (case r1 of Inl e \<Rightarrow> (Inl e, w1)
                 | Inr x \<Rightarrow> (case r2 of Inl e \<Rightarrow> (Inl e, w2) | Inr y \<Rightarrow> prepare_objects bucket dp objs w2))"
      using False m d by (simp add: key_path_def split: sum.splits)
    from Cons.prems(1) un obtain u1 where r1: "r1 = Inr u1" by (cases r1) simp_all
    from Cons.prems(1) un r1 obtain u2 where r2: "r2 = Inr u2" by (cases r2) simp_all
    from un r1 r2 have eq: "prepare_objects bucket dp (ob # objs) w = prepare_objects bucket dp objs w2"
      by simp
    have m1: "fst (mkdir_parents (path_parent ?dest) w) = Inr u1" and w1: "w1 = snd (mkdir_parents (path_parent ?dest) w)"
      using m r1 by simp_all
    have d1: "fst (download_file bucket (Key ob) ?dest (snd (mkdir_parents (path_parent ?dest) w))) = Inr u2"
      and w2: "w2 = snd (download_file bucket (Key ob) ?dest (snd (mkdir_parents (path_parent ?dest) w)))"
      using d r2 unfolding w1 by simp_all
    from Cons.prems(4) False have rel: "\<not> fst ?kp" and dk: "''..'' \<notin> set (snd ?kp)"
      by simp_all
    from prepare_step[OF m1 d1 rel dk Cons.prems(2) Cons.prems(5) Cons.prems(3) w2]
    have c: "cwd w2 = cwd w" and da: "dirs_along (fs w2) (start_of (cwd w) dp) (snd dp)"
      and fb: "files_below w2 (location w dp) = insert (snd ?kp) (files_below w (location w dp))"
      by simp_all
    have loc: "location w2 dp = location w dp" "start_of (cwd w2) dp = start_of (cwd w) dp"
      using c by (simp_all add: location_def)
    from Cons.prems(4) have p4: "\<forall>ob \<in> set objs. \<not> endswith_slash (Key ob) \<longrightarrow>
           \<not> fst (key_path (Key ob)) \<and> ''..'' \<notin> set (snd (key_path (Key ob)))"
      by simp
    from Cons.prems(1) have p1: "fst (prepare_objects bucket dp objs w2) = Inr u"
      unfolding eq .
    from da have da': "dirs_along (fs w2) (start_of (cwd w2) dp) (snd dp)"
      unfolding loc .
    have "{snd (key_path (Key x)) | x. x \<in> set (ob # objs) \<and> \<not> endswith_slash (Key x)} =
          insert (snd ?kp) {snd (key_path (Key x)) | x. x \<in> set objs \<and> \<not> endswith_slash (Key x)}"
      using False by auto
    with Cons.IH[OF p1 Cons.prems(2,3) p4 da'] fb show ?thesis
      unfolding eq loc by simp
  qed
qed

section \<open>The Localizer\<close>

lemma prepare_pages_concat:
  "prepare_pages bucket dp pages w = prepare_objects bucket dp (concat (map page_get_contents pages)) w"
proof (induction pages arbitrary: w)
  case Nil
  show ?case by simp
next
  case (Cons pg pages)
  have app: "prepare_objects bucket dp (xs @ ys) v =
               (case prepare_objects bucket dp xs v of
                  (Inl e, v1) \<Rightarrow> (Inl e, v1)
                | (Inr x, v1) \<Rightarrow> prepare_objects bucket dp ys v1)" for xs ys v
    by (induction xs arbitrary: v) (simp_all split: prod.splits sum.splits)
  show ?case
    by (simp add: app Cons.IH split: prod.splits sum.splits)
qed

lemma concat_chunks: "0 < n \<Longrightarrow> concat (chunks n xs) = xs"
proof (induction n xs rule: chunks.induct)
  case (1 n xs)
  show ?case
  proof (cases "xs = []")
    case True
    then show ?thesis by (subst chunks.simps) simp
  next
    case False
    with "1.prems" have "concat (chunks n (drop n xs)) = drop n xs"
      using "1.IH" by simp
    with False "1.prems" show ?thesis
      by (subst chunks.simps) simp
  qed
qed

lemma listed_pages_contents:
  "concat (map page_get_contents (list_objects_v2_pages objs pfx)) =
     map (\<lambda>k. \<lparr>Key = k\<rparr>) (listed_keys objs pfx)"
proof (cases "listed_keys objs pfx = []")
  case True
  then show ?thesis
    by (simp add: list_objects_v2_pages_def page_get_contents_def)
next
  case False
  have "concat (map page_get_contents
          (map (\<lambda>ks. \<lparr>Contents = Some (map (\<lambda>k. \<lparr>Key = k\<rparr>) ks)\<rparr>) (chunks 1000 (listed_keys objs pfx)))) =
        concat (map (map (\<lambda>k. \<lparr>Key = k\<rparr>)) (chunks 1000 (listed_keys objs pfx)))"
    by (simp add: page_get_contents_def comp_def)
  also have "\<dots> = map (\<lambda>k. \<lparr>Key = k\<rparr>) (concat (chunks 1000 (listed_keys objs pfx)))"
    by (simp add: map_concat)
  also have "\<dots> = map (\<lambda>k. \<lparr>Key = k\<rparr>) (listed_keys objs pfx)"
    by (simp add: concat_chunks)
  finally show ?thesis
    using False by (simp add: list_objects_v2_pages_def)
qed

lemma parse_day: "parse_path (''day='' @ DAY) = (False, [''day=20231101''])"
  by (simp add: parse_path_def DAY_def)

lemma local_raw_dir_parts:
  "local_raw_dir_of cfg = (fst (parse_path (raw_dir cfg)), snd (parse_path (raw_dir cfg)) @ [''day=20231101''])"
  unfolding local_raw_dir_of_def parse_day by (simp add: path_join_def)

lemma local_raw_dir_clean:
  "''..'' \<notin> set (snd (parse_path (raw_dir cfg))) \<Longrightarrow> ''..'' \<notin> set (snd (local_raw_dir_of cfg))"
  "snd (local_raw_dir_of cfg) \<noteq> []"
  by (simp_all add: local_raw_dir_parts)

text \<open>The Localizer once the bucket is known and the directory has been reset.\<close>

lemma prepare_data_after_reset:
  assumes "s3_bucket cfg = Some bucket" and "bucket \<noteq> []"
    and "fst (ensure_empty_dir (local_raw_dir_of cfg) w) = Inr u"
    and "s3 (snd (ensure_empty_dir (local_raw_dir_of cfg) w)) bucket = Some objs"
  shows "prepare_data cfg s1_prepare_data w =
           (case prepare_objects bucket (local_raw_dir_of cfg)
                   (map (\<lambda>k. \<lparr>Key = k\<rparr>) (listed_keys objs S3_PREFIX))
                   (log (S3List bucket S3_PREFIX) (snd (ensure_empty_dir (local_raw_dir_of cfg) w))) of
              (Inl e, w3) \<Rightarrow> (Inl e, w3)
            | (Inr x, w3) \<Rightarrow> s1_prepare_data w3)"
proof -
  obtain r we where e: "ensure_empty_dir (local_raw_dir_of cfg) w = (r, we)"
    by (cases "ensure_empty_dir (local_raw_dir_of cfg) w")
  with assms(3,4) have r: "r = Inr u" and s: "s3 we bucket = Some objs"
    by simp_all
  have p: "paginate bucket S3_PREFIX we =
             (Inr (list_objects_v2_pages objs S3_PREFIX), log (S3List bucket S3_PREFIX) we)"
    using s by (simp add: paginate_def Let_def)
  show ?thesis
    using assms(1,2) e r p
    by (simp add: prepare_data_def prepare_pages_concat listed_pages_contents)
qed

lemma files_below_subset: "files_below w d \<subseteq> entries_below w d"
  by (auto simp: files_below_def entries_below_def)

text \<open>
  The Localizer on keys that stay below the day directory. Take a file system that is
  a tree, a \<^verbatim>\<open>raw_dir\<close> without \<^verbatim>\<open>..\<close>, a listing in which every key that is not a
  directory marker continues, after the prefix, with a relative path without
  \<^verbatim>\<open>..\<close>, and a preparation routine that leaves the files below the day directory as
  they are. Then after every successful run the files below the day directory are
  exactly the paths of the listed keys that are not directory markers, whatever the
  directory held before: it is emptied before the first download, and no file of an
  earlier run survives.
\<close>

lemma localizer_directory_equals_listing:
  assumes "fst (prepare_data cfg s1_prepare_data w) = Inr res"
    and "s3_bucket cfg = Some bucket" and "s3 w bucket = Some objs"
    and "wf_fs (fs w)" and "''..'' \<notin> set (snd (parse_path (raw_dir cfg)))"
    and "\<forall>k \<in> set (listed_keys objs S3_PREFIX). \<not> endswith_slash k \<longrightarrow>
           \<not> fst (key_path k) \<and> ''..'' \<notin> set (snd (key_path k))"
    and "\<forall>v. files_below (snd (s1_prepare_data v)) (location w (local_raw_dir_of cfg)) =
              files_below v (location w (local_raw_dir_of cfg))"
  shows "files_below (snd (prepare_data cfg s1_prepare_data w)) (location w (local_raw_dir_of cfg)) =
           {snd (key_path k) | k. k \<in> set (listed_keys objs S3_PREFIX) \<and> \<not> endswith_slash k}"
proof -
  let ?dp = "local_raw_dir_of cfg"
  let ?d = "location w ?dp"
  let ?E = "ensure_empty_dir ?dp w"
  let ?keys = "listed_keys objs S3_PREFIX"
  have bne: "bucket \<noteq> []"
    using assms(1,2) by (auto simp: prepare_data_def)
  obtain r we where e: "?E = (r, we)" by (cases ?E)
  from assms(1,2) bne e obtain u where r: "r = Inr u"
    by (cases r) (simp_all add: prepare_data_def)
  have ok: "fst ?E = Inr u" and we: "we = snd ?E"
    using e r by simp_all
  have dd: "''..'' \<notin> set (snd ?dp)" and ne: "snd ?dp \<noteq> []"
    using assms(5) by (simp_all add: local_raw_dir_clean)
  from ensure_empty_dir_Inr[OF ok dd ne assms(4)]
  have da: "dirs_along (fs we) (start_of (cwd w) ?dp) (snd ?dp)"
    and em: "entries_below we ?d = {}" and c: "cwd we = cwd w" and s: "s3 we = s3 w"
    unfolding we by simp_all
  let ?w2 = "log (S3List bucket S3_PREFIX) we"
  let ?objs = "map (\<lambda>k. \<lparr>Key = k\<rparr>) ?keys"
  let ?P = "prepare_objects bucket ?dp ?objs ?w2"
  have s': "s3 (snd ?E) bucket = Some objs"
    using s assms(3) unfolding we by simp
  note un = prepare_data_after_reset[OF assms(2) bne ok s', of s1_prepare_data, folded we]
  obtain r3 w3 where p: "?P = (r3, w3)" by (cases ?P)
  from assms(1) un p obtain u3 where r3: "r3 = Inr u3"
    by (cases r3) simp_all
  from un p r3 have fin: "prepare_data cfg s1_prepare_data w = s1_prepare_data w3"
    by simp
  have pok: "fst ?P = Inr u3" and w3: "w3 = snd ?P"
    using p r3 by simp_all
  have loc: "location ?w2 ?dp = ?d" "start_of (cwd ?w2) ?dp = start_of (cwd w) ?dp"
    using c by (simp_all add: location_def)
  have da2: "dirs_along (fs ?w2) (start_of (cwd ?w2) ?dp) (snd ?dp)"
    using da unfolding loc by simp
  have cl: "\<forall>ob \<in> set ?objs. \<not> endswith_slash (Key ob) \<longrightarrow>
              \<not> fst (key_path (Key ob)) \<and> ''..'' \<notin> set (snd (key_path (Key ob)))"
    using assms(6) by simp
  have "files_below ?w2 ?d \<subseteq> entries_below we ?d"
    using files_below_subset[of we ?d] by (simp add: files_below_def)
  with em have f0: "files_below ?w2 ?d = {}" by simp
  have "{snd (key_path (Key ob)) | ob. ob \<in> set ?objs \<and> \<not> endswith_slash (Key ob)} =
        {snd (key_path k) | k. k \<in> set ?keys \<and> \<not> endswith_slash k}" (is "?A = ?B")
  proof (rule set_eqI)
    fix x
    show "(x \<in> ?A) = (x \<in> ?B)"
    proof
      assume "x \<in> ?A"
      then show "x \<in> ?B" by auto
    next
      assume "x \<in> ?B"
      then obtain k where k: "x = snd (key_path k)" "k \<in> set ?keys" "\<not> endswith_slash k"
        by blast
      then have "x = snd (key_path (Key \<lparr>Key = k\<rparr>)) \<and> \<lparr>Key = k\<rparr> \<in> set ?objs \<and>
                 \<not> endswith_slash (Key \<lparr>Key = k\<rparr>)"
        by simp
      then show "x \<in> ?A" by blast
    qed
  qed
  with prepare_objects_Inr[OF pok dd ne cl da2] f0
  have "files_below w3 ?d = {snd (key_path k) | k. k \<in> set ?keys \<and> \<not> endswith_slash k}"
    unfolding loc w3 by simp
  with assms(7) show ?thesis
    unfolding fin by simp
qed

lemma example_dir: "local_raw_dir_of example_cfg = (False, [''data'', ''day=20231101''])"
  unfolding local_raw_dir_parts by (simp add: example_cfg_def parse_path_def)

lemma example_clean: "''..'' \<notin> set (snd (parse_path (raw_dir example_cfg)))"
  by (simp add: example_cfg_def parse_path_def)

lemma wf_stale_fs: "wf_fs stale_fs"
  by (auto simp: wf_fs_def stale_fs_def node_at_def split: if_splits)

lemma wf_empty_fs: "wf_fs Map.empty"
  by (simp add: wf_fs_def)

lemma stale_reset:
  assumes "fs w = stale_fs" and "cwd w = []"
  shows "fst (ensure_empty_dir (False, [''data'', ''day=20231101'']) w) = Inr ()"
  using assms
  by (simp add: ensure_empty_dir_def path_exists_def shutil_rmtree_def mkdir_parents_def
      path_mkdir.simps os_mkdir_def fs_exists_def fs_is_dir_def resolve_def check_dir_def
      node_at_def step_def start_of_def Let_def stale_fs_def)

lemma two_objects_listed:
  "listed_keys two_objects S3_PREFIX = [S3_PREFIX @ ''000000Z.json.gz'', S3_PREFIX @ ''000005Z.json.gz'']"
  by (simp add: listed_keys_def two_objects_def S3_PREFIX_def DAY_def)

lemma stray_run:
  "fst (prepare_data example_cfg s1_ok world_stray_key) = Inr ''OK'' \<and>
   fs (snd (prepare_data example_cfg s1_ok world_stray_key)) =
     [[''data''] \<mapsto> Dir, [''data'', ''day=20231101''] \<mapsto> Dir, [''x''] \<mapsto> File ''payload'']"
  by (simp add: prepare_data_def example_cfg_def world_stray_key_def s1_ok_def example_dir[unfolded example_cfg_def]
      ensure_empty_dir_def path_exists_def shutil_rmtree_def mkdir_parents_def
      path_mkdir.simps os_mkdir_def fs_exists_def fs_is_dir_def resolve_def check_dir_def
      node_at_def step_def start_of_def Let_def log_def
      paginate_def list_objects_v2_pages_def listed_keys_def chunks.simps page_get_contents_def
      S3_PREFIX_def DAY_def endswith_slash_def parse_path_def path_join_def path_parent_def
      download_file_def write_file_def)

lemma dotdot_run:
  "fst (prepare_data example_cfg s1_ok world_dotdot_key) = Inr ''OK'' \<and>
   fs (snd (prepare_data example_cfg s1_ok world_dotdot_key)) =
     [[''data''] \<mapsto> Dir, [''data'', ''day=20231101''] \<mapsto> Dir, [''data'', ''x''] \<mapsto> File ''payload'']"
  by (simp add: prepare_data_def example_cfg_def world_dotdot_key_def s1_ok_def example_dir[unfolded example_cfg_def]
      ensure_empty_dir_def path_exists_def shutil_rmtree_def mkdir_parents_def
      path_mkdir.simps os_mkdir_def fs_exists_def fs_is_dir_def resolve_def check_dir_def
      node_at_def step_def start_of_def Let_def log_def
      paginate_def list_objects_v2_pages_def listed_keys_def chunks.simps page_get_contents_def
      S3_PREFIX_def DAY_def endswith_slash_def parse_path_def path_join_def path_parent_def
      download_file_def write_file_def)

lemma two_objects_run:
  "fst (prepare_data example_cfg s1_ok world_two_objects) = Inr ''OK''"
  by (simp add: prepare_data_def example_cfg_def world_two_objects_def s1_ok_def example_dir[unfolded example_cfg_def]
      ensure_empty_dir_def path_exists_def shutil_rmtree_def mkdir_parents_def
      path_mkdir.simps os_mkdir_def fs_exists_def fs_is_dir_def resolve_def check_dir_def
      node_at_def step_def start_of_def Let_def log_def stale_fs_def two_objects_def
      paginate_def list_objects_v2_pages_def listed_keys_def chunks.simps page_get_contents_def
      S3_PREFIX_def DAY_def endswith_slash_def parse_path_def path_join_def path_parent_def
      download_file_def write_file_def)

lemma example_location: "location w (local_raw_dir_of example_cfg) = cwd w @ [''data'', ''day=20231101'']"
  by (simp add: location_def example_dir start_of_def)

lemma token_key_path:
  "key_path (S3_PREFIX @ ''000000Z.json.gz'') = (False, [''000000Z.json.gz''])"
  "key_path (S3_PREFIX @ ''000005Z.json.gz'') = (False, [''000005Z.json.gz''])"
  "\<not> endswith_slash (S3_PREFIX @ ''000000Z.json.gz'')"
  "\<not> endswith_slash (S3_PREFIX @ ''000005Z.json.gz'')"
  by (simp_all add: key_path_def parse_path_def endswith_slash_def)

text \<open>One object with a plain file name, in a directory that is there.\<close>

lemma prepare_object_flat:
  assumes da: "dirs_along (fs w) (start_of (cwd w) dp) (snd dp)" and dd: "''..'' \<notin> set (snd dp)"
    and nm: "\<not> endswith_slash k" and kp: "key_path k = (False, [name])" and nn: "name \<noteq> ''..''"
    and s: "s3 w bucket = Some objs" and mo: "map_of objs k = Some body"
    and free: "fs w (location w dp @ [name]) \<noteq> Some Dir"
  shows "\<exists>w2. prepare_objects bucket dp (\<lparr>Key = k\<rparr> # rest) w = prepare_objects bucket dp rest w2 \<and>
           fs w2 = (fs w)(location w dp @ [name] \<mapsto> File body) \<and> cwd w2 = cwd w \<and> s3 w2 = s3 w \<and>
           download_keys (trace w2) = download_keys (trace w) @ [k]"
proof -
  let ?dest = "(fst dp, snd dp @ [name])"
  let ?w1 = "(log (FsMkdir dp) w)\<lparr>fs := fs w\<rparr>"
  let ?f2 = "(fs w)(location w dp @ [name] \<mapsto> File body)"
  let ?w2 = "(log (S3Download bucket k ?dest) ?w1)\<lparr>fs := ?f2\<rparr>"
  have dest: "path_join dp (parse_path (drop (length S3_PREFIX) k)) = ?dest"
    using kp by (simp add: key_path_def path_join_def)
  have par: "path_parent ?dest = dp"
    by (simp add: path_parent_def)
  have pm: "path_mkdir (fs w) (cwd w) dp = Inr (fs w)"
    using da dd by (rule path_mkdir_existing)
  have m: "mkdir_parents dp w = (Inr (), ?w1)"
    by (simp add: mkdir_parents_def pm Let_def)
  have "write_file (fs w) (cwd w) ?dest body = Inr ((fs w)(start_of (cwd w) ?dest @ snd ?dest \<mapsto> File body))"
  proof (rule write_file_ok)
    show "''..'' \<notin> set (snd ?dest)" using dd nn by simp
    show "snd ?dest \<noteq> []" by simp
    show "dirs_along (fs w) (start_of (cwd w) ?dest) (butlast (snd ?dest))"
      using da by (simp add: start_of_def)
    show "fs w (start_of (cwd w) ?dest @ snd ?dest) \<noteq> Some Dir"
      using free by (simp add: location_def start_of_def)
  qed
  then have wr: "write_file (fs w) (cwd w) ?dest body = Inr ?f2"
    by (simp add: location_def start_of_def)
  have d: "download_file bucket k ?dest ?w1 = (Inr (), ?w2)"
    using s mo wr by (simp add: download_file_def Let_def)
  have "prepare_objects bucket dp (\<lparr>Key = k\<rparr> # rest) w = prepare_objects bucket dp rest ?w2"
    using nm by (simp add: dest par m d)
  moreover have "fs ?w2 = ?f2" "cwd ?w2 = cwd w" "s3 ?w2 = s3 w"
    "download_keys (trace ?w2) = download_keys (trace w) @ [k]"
    by simp_all
  ultimately show ?thesis by blast
qed

lemma listed_key_body:
  assumes "k \<in> set (listed_keys objs pfx)"
  shows "\<exists>body. map_of objs k = Some body"
proof -
  from assms have "k \<in> fst ` set objs"
    by (simp add: set_listed_keys)
  then show ?thesis
    by (cases "map_of objs k") (simp_all add: map_of_eq_None_iff)
qed

lemma localizer_empty_listing:
  assumes b: "s3_bucket cfg = Some bucket" "bucket \<noteq> []" and s: "s3 w bucket = Some objs"
    and l: "listed_keys objs S3_PREFIX = []"
    and wf: "wf_fs (fs w)" and nd: "''..'' \<notin> set (snd (parse_path (raw_dir cfg)))"
    and ok: "fst (ensure_empty_dir (local_raw_dir_of cfg) w) = Inr ()"
  shows "\<exists>w3. prepare_data cfg s1_prepare_data w = s1_prepare_data w3 \<and>
           download_keys (trace w3) = download_keys (trace w) \<and>
           node_at (fs w3) (location w (local_raw_dir_of cfg)) = Some Dir \<and>
           entries_below w3 (location w (local_raw_dir_of cfg)) = {}"
proof -
  let ?dp = "local_raw_dir_of cfg"
  let ?we = "snd (ensure_empty_dir ?dp w)"
  let ?w2 = "log (S3List bucket S3_PREFIX) ?we"
  have dd: "''..'' \<notin> set (snd ?dp)" and ne: "snd ?dp \<noteq> []"
    using nd by (simp_all add: local_raw_dir_clean)
  from ensure_empty_dir_Inr[OF ok dd ne wf]
  have da: "dirs_along (fs ?we) (start_of (cwd w) ?dp) (snd ?dp)"
    and em: "entries_below ?we (location w ?dp) = {}" and c: "cwd ?we = cwd w" and s': "s3 ?we = s3 w"
    and dk: "download_keys (trace ?we) = download_keys (trace w)"
    by simp_all
  have s2: "s3 ?we bucket = Some objs" using s s' by simp
  have "prepare_data cfg s1_prepare_data w = s1_prepare_data ?w2"
    unfolding prepare_data_after_reset[OF b ok s2] l by simp
  moreover have "download_keys (trace ?w2) = download_keys (trace w)"
    using dk by simp
  moreover have "node_at (fs ?w2) (location w ?dp) = Some Dir"
    using da ne by (simp add: dirs_along_butlast location_def)
  moreover have "entries_below ?w2 (location w ?dp) = {}"
    using em by (simp add: entries_below_def)
  ultimately show ?thesis by blast
qed

lemma localizer_two_tokens:
  assumes b: "s3_bucket cfg = Some bucket" "bucket \<noteq> []" and s: "s3 w bucket = Some objs"
    and l: "listed_keys objs S3_PREFIX = [S3_PREFIX @ ''000000Z.json.gz'', S3_PREFIX @ ''000005Z.json.gz'']"
    and wf: "wf_fs (fs w)" and nd: "''..'' \<notin> set (snd (parse_path (raw_dir cfg)))"
    and ok: "fst (ensure_empty_dir (local_raw_dir_of cfg) w) = Inr ()"
  shows "\<exists>w3. prepare_data cfg s1_prepare_data w = s1_prepare_data w3 \<and>
           entries_below w3 (location w (local_raw_dir_of cfg)) = {[''000000Z.json.gz''], [''000005Z.json.gz'']} \<and>
           files_below w3 (location w (local_raw_dir_of cfg)) = {[''000000Z.json.gz''], [''000005Z.json.gz'']} \<and>
           download_keys (trace w3) =
             download_keys (trace w) @ [S3_PREFIX @ ''000000Z.json.gz'', S3_PREFIX @ ''000005Z.json.gz'']"
proof -
  let ?dp = "local_raw_dir_of cfg"
  let ?d = "location w ?dp"
  let ?we = "snd (ensure_empty_dir ?dp w)"
  let ?w2 = "log (S3List bucket S3_PREFIX) ?we"
  let ?k0 = "S3_PREFIX @ ''000000Z.json.gz''"
  let ?k1 = "S3_PREFIX @ ''000005Z.json.gz''"
  have dd: "''..'' \<notin> set (snd ?dp)" and ne: "snd ?dp \<noteq> []"
    using nd by (simp_all add: local_raw_dir_clean)
  from ensure_empty_dir_Inr[OF ok dd ne wf]
  have da: "dirs_along (fs ?we) (start_of (cwd w) ?dp) (snd ?dp)"
    and em: "entries_below ?we ?d = {}" and c: "cwd ?we = cwd w" and s': "s3 ?we = s3 w"
    and dk: "download_keys (trace ?we) = download_keys (trace w)"
    by simp_all
  have none: "fs ?we (?d @ r) = None" if "r \<noteq> []" for r
  proof (rule ccontr)
    assume "fs ?we (?d @ r) \<noteq> None"
    with that have "r \<in> entries_below ?we ?d" by (simp add: entries_below_def)
    with em show False by simp
  qed
  have s2: "s3 ?we bucket = Some objs" using s s' by simp
  have un: "prepare_data cfg s1_prepare_data w =
              (case prepare_objects bucket ?dp [\<lparr>Key = ?k0\<rparr>, \<lparr>Key = ?k1\<rparr>] ?w2 of
                 (Inl e, w3) \<Rightarrow> (Inl e, w3)
               | (Inr x, w3) \<Rightarrow> s1_prepare_data w3)"
    unfolding prepare_data_after_reset[OF b ok s2] l by simp
  from listed_key_body[of ?k0 objs S3_PREFIX] listed_key_body[of ?k1 objs S3_PREFIX] l
  obtain b0 b1 where mo: "map_of objs ?k0 = Some b0" "map_of objs ?k1 = Some b1"
    by auto
  have loc2: "location ?w2 ?dp = ?d" "start_of (cwd ?w2) ?dp = start_of (cwd w) ?dp"
    using c by (simp_all add: location_def)
  have da2: "dirs_along (fs ?w2) (start_of (cwd ?w2) ?dp) (snd ?dp)"
    using da unfolding loc2 by simp
  have s3a: "s3 ?w2 bucket = Some objs" using s2 by simp
  have free0: "fs ?w2 (location ?w2 ?dp @ [''000000Z.json.gz'']) \<noteq> Some Dir"
    unfolding loc2 using none[of "[''000000Z.json.gz'']"] by simp
  from prepare_object_flat[OF da2 dd token_key_path(3) token_key_path(1) _ s3a mo(1) free0, of "[\<lparr>Key = ?k1\<rparr>]"]
  obtain wa where
    st1: "prepare_objects bucket ?dp [\<lparr>Key = ?k0\<rparr>, \<lparr>Key = ?k1\<rparr>] ?w2 = prepare_objects bucket ?dp [\<lparr>Key = ?k1\<rparr>] wa"
    and fa: "fs wa = (fs ?we)(?d @ [''000000Z.json.gz''] \<mapsto> File b0)" and ca: "cwd wa = cwd w"
    and sa: "s3 wa = s3 w"
    and ta: "download_keys (trace wa) = download_keys (trace w) @ [?k0]"
    unfolding loc2 using c s' dk by auto
  have loca: "location wa ?dp = ?d" "start_of (cwd wa) ?dp = start_of (cwd w) ?dp"
    using ca by (simp_all add: location_def)
  have "\<forall>x. fs wa x \<noteq> fs ?we x \<longrightarrow> fs ?we x \<noteq> Some Dir"
    unfolding fa using none[of "[''000000Z.json.gz'']"] by simp
  from dirs_along_mono[OF da this] have daa: "dirs_along (fs wa) (start_of (cwd wa) ?dp) (snd ?dp)"
    unfolding loca .
  have s3b: "s3 wa bucket = Some objs" using s sa by simp
  have free1: "fs wa (location wa ?dp @ [''000005Z.json.gz'']) \<noteq> Some Dir"
    unfolding loca fa using none[of "[''000005Z.json.gz'']"] by simp
  from prepare_object_flat[OF daa dd token_key_path(4) token_key_path(2) _ s3b mo(2) free1, of "[]"]
  obtain wb where
    st2: "prepare_objects bucket ?dp [\<lparr>Key = ?k1\<rparr>] wa = prepare_objects bucket ?dp [] wb"
    and fb: "fs wb = (fs ?we)(?d @ [''000000Z.json.gz''] \<mapsto> File b0, ?d @ [''000005Z.json.gz''] \<mapsto> File b1)"
    and tb: "download_keys (trace wb) = download_keys (trace w) @ [?k0, ?k1]"
    unfolding loca fa ta by auto
  have fin: "prepare_data cfg s1_prepare_data w = s1_prepare_data wb"
    unfolding un st1 st2 by simp
  have val: "fs wb (?d @ r) =
               (if r = [''000005Z.json.gz''] then Some (File b1)
                else if r = [''000000Z.json.gz''] then Some (File b0) else None)" if "r \<noteq> []" for r
    unfolding fb using none[OF that] by simp
  have eb: "entries_below wb ?d = {[''000000Z.json.gz''], [''000005Z.json.gz'']}"
  proof (rule set_eqI)
    fix r show "(r \<in> entries_below wb ?d) = (r \<in> {[''000000Z.json.gz''], [''000005Z.json.gz'']})"
      by (cases "r = []") (auto simp: entries_below_def val)
  qed
  have flb: "files_below wb ?d = {[''000000Z.json.gz''], [''000005Z.json.gz'']}"
  proof (rule set_eqI)
    fix r show "(r \<in> files_below wb ?d) = (r \<in> {[''000000Z.json.gz''], [''000005Z.json.gz'']})"
      by (cases "r = []") (auto simp: files_below_def val)
  qed
  from fin eb flb tb show ?thesis by blast
qed

lemma example_bucket: "s3_bucket example_cfg = Some ''bucket''" "''bucket'' \<noteq> []"
  by (simp_all add: example_cfg_def)

lemma example_worlds:
  "s3 world_empty_bucket ''bucket'' = Some []" "fs world_empty_bucket = stale_fs" "cwd world_empty_bucket = []"
  "trace world_empty_bucket = []"
  "s3 world_two_objects ''bucket'' = Some two_objects" "fs world_two_objects = stale_fs"
  "cwd world_two_objects = []" "trace world_two_objects = []"
  by (simp_all add: world_empty_bucket_def world_two_objects_def)

lemma localizer_directory_equals_listing_example:
  "files_below (snd (prepare_data example_cfg s1_ok world_two_objects)) [''data'', ''day=20231101''] =
     {[''000000Z.json.gz''], [''000005Z.json.gz'']}"
proof -
  have k: "\<forall>k \<in> set (listed_keys two_objects S3_PREFIX). \<not> endswith_slash k \<longrightarrow>
             \<not> fst (key_path k) \<and> ''..'' \<notin> set (snd (key_path k))"
    unfolding two_objects_listed by (simp add: token_key_path)
  have p: "\<forall>v. files_below (snd (s1_ok v)) (location world_two_objects (local_raw_dir_of example_cfg)) =
               files_below v (location world_two_objects (local_raw_dir_of example_cfg))"
    by (simp add: s1_ok_def)
  have w: "wf_fs (fs world_two_objects)"
    by (simp add: example_worlds wf_stale_fs)
  have a: "{snd (key_path k) | k. k \<in> set ks \<and> \<not> endswith_slash k} =
             (\<lambda>k. snd (key_path k)) ` {k \<in> set ks. \<not> endswith_slash k}" for ks
    by auto
  have b: "{k \<in> set [S3_PREFIX @ ''000000Z.json.gz'', S3_PREFIX @ ''000005Z.json.gz'']. \<not> endswith_slash k} =
             {S3_PREFIX @ ''000000Z.json.gz'', S3_PREFIX @ ''000005Z.json.gz''}"
    using token_key_path(3,4) by auto
  have "{snd (key_path k) | k. k \<in> set (listed_keys two_objects S3_PREFIX) \<and> \<not> endswith_slash k} =
        {[''000000Z.json.gz''], [''000005Z.json.gz'']}"
    unfolding two_objects_listed a b by (simp add: token_key_path)
  with localizer_directory_equals_listing[OF two_objects_run example_bucket(1) example_worlds(5) w example_clean k p]
  show ?thesis
    by (simp add: example_location example_worlds)
qed

text \<open>
  Claim C7. The claim says that after a successful run the day directory holds exactly
  the files of the listing. The code does not keep to it when a listed key continues,
  after the prefix, with an absolute path or with \<^verbatim>\<open>..\<close>: the rest of the key is
  joined to the day directory as it is. With the only object listed being
  \<^verbatim>\<open>raw/day=20231101//x\<close> the run succeeds, the file is written at \<^verbatim>\<open>/x\<close> and
  the day directory holds no file; with \<^verbatim>\<open>raw/day=20231101/../x\<close> the run
  succeeds, the file is written at \<^verbatim>\<open>data/x\<close>, beside the day directory, which
  again holds no file. The docstring of \<^verbatim>\<open>prepare_data\<close> says that the raw files are
  downloaded to the local day directory.
\<close>

theorem stray_key_leaves_day_directory:
  "fst (prepare_data example_cfg s1_ok world_stray_key) = Inr ''OK'' \<and>
   listed_keys [(''raw/day=20231101//x'', ''payload'')] S3_PREFIX = [''raw/day=20231101//x''] \<and>
   files_below (snd (prepare_data example_cfg s1_ok world_stray_key)) [''data'', ''day=20231101''] = {} \<and>
   fs (snd (prepare_data example_cfg s1_ok world_stray_key)) [''x''] = Some (File ''payload'') \<and>
   fst (prepare_data example_cfg s1_ok world_dotdot_key) = Inr ''OK'' \<and>
   listed_keys [(''raw/day=20231101/../x'', ''payload'')] S3_PREFIX = [''raw/day=20231101/../x''] \<and>
   files_below (snd (prepare_data example_cfg s1_ok world_dotdot_key)) [''data'', ''day=20231101''] = {} \<and>
   fs (snd (prepare_data example_cfg s1_ok world_dotdot_key)) [''data'', ''x''] = Some (File ''payload'')"
proof -
  have "files_below (snd (prepare_data example_cfg s1_ok world_stray_key)) [''data'', ''day=20231101''] = {}"
    by (auto simp: files_below_def stray_run)
  moreover have "listed_keys [(''raw/day=20231101//x'', ''payload'')] S3_PREFIX = [''raw/day=20231101//x'']"
    by (simp add: listed_keys_def S3_PREFIX_def DAY_def)
  moreover have "files_below (snd (prepare_data example_cfg s1_ok world_dotdot_key)) [''data'', ''day=20231101''] = {}"
    by (auto simp: files_below_def dotdot_run)
  moreover have "listed_keys [(''raw/day=20231101/../x'', ''payload'')] S3_PREFIX = [''raw/day=20231101/../x'']"
    by (simp add: listed_keys_def S3_PREFIX_def DAY_def)
  ultimately show ?thesis
    by (simp add: stray_run dotdot_run)
qed

text \<open>
  Claim C8. With a bucket that is configured and exists and holds no object under the
  prefix, on a file system that is a tree and with a \<^verbatim>\<open>raw_dir\<close> without \<^verbatim>\<open>..\<close>, a
  run whose reset of the day directory succeeds is no error of the Localizer: it makes
  no download, hands the preparation routine a world in which the day directory is an
  empty directory, and returns what the routine returns.
\<close>

theorem empty_listing_still_prepares:
  assumes "s3_bucket cfg = Some bucket" and "bucket \<noteq> []" and "s3 w bucket = Some objs"
    and "listed_keys objs S3_PREFIX = []"
    and "wf_fs (fs w)" and "''..'' \<notin> set (snd (parse_path (raw_dir cfg)))"
    and "fst (ensure_empty_dir (local_raw_dir_of cfg) w) = Inr ()"
  shows "\<exists>w3. prepare_data cfg s1_prepare_data w = s1_prepare_data w3 \<and>
           download_keys (trace w3) = download_keys (trace w) \<and>
           node_at (fs w3) (location w (local_raw_dir_of cfg)) = Some Dir \<and>
           entries_below w3 (location w (local_raw_dir_of cfg)) = {}"
  using assms by (rule localizer_empty_listing)

theorem empty_listing_still_prepares_witness:
  "\<exists>w3. prepare_data example_cfg s1_ok world_empty_bucket = (Inr ''OK'', w3) \<and>
         download_keys (trace w3) = [] \<and>
         node_at (fs w3) [''data'', ''day=20231101''] = Some Dir \<and>
         entries_below w3 [''data'', ''day=20231101''] = {}"
proof -
  have l: "listed_keys [] S3_PREFIX = []"
    by (simp add: listed_keys_def)
  have w: "wf_fs (fs world_empty_bucket)"
    by (simp add: example_worlds wf_stale_fs)
  have r: "fst (ensure_empty_dir (local_raw_dir_of example_cfg) world_empty_bucket) = Inr ()"
    unfolding example_dir by (rule stale_reset) (simp_all add: example_worlds)
  from empty_listing_still_prepares[OF example_bucket example_worlds(1) l w example_clean r, of s1_ok]
  show ?thesis
    by (simp add: example_location example_worlds s1_ok_def)
qed

text \<open>
  Claim C9. With a bucket that is configured and exists and whose listing under the
  prefix is \<^verbatim>\<open>raw/day=20231101/000000Z.json.gz\<close> and
  \<^verbatim>\<open>raw/day=20231101/000005Z.json.gz\<close>, on a file system that is a tree and with a
  \<^verbatim>\<open>raw_dir\<close> without \<^verbatim>\<open>..\<close>, a run whose reset of the day directory succeeds
  downloads the two objects, and the preparation routine is handed a world in which
  the day directory holds exactly two entries, the files \<^verbatim>\<open>000000Z.json.gz\<close> and
  \<^verbatim>\<open>000005Z.json.gz\<close>.
\<close>

theorem two_objects_two_files:
  assumes "s3_bucket cfg = Some bucket" and "bucket \<noteq> []" and "s3 w bucket = Some objs"
    and "listed_keys objs S3_PREFIX = [S3_PREFIX @ ''000000Z.json.gz'', S3_PREFIX @ ''000005Z.json.gz'']"
    and "wf_fs (fs w)" and "''..'' \<notin> set (snd (parse_path (raw_dir cfg)))"
    and "fst (ensure_empty_dir (local_raw_dir_of cfg) w) = Inr ()"
  shows "\<exists>w3. prepare_data cfg s1_prepare_data w = s1_prepare_data w3 \<and>
           entries_below w3 (location w (local_raw_dir_of cfg)) = {[''000000Z.json.gz''], [''000005Z.json.gz'']} \<and>
           files_below w3 (location w (local_raw_dir_of cfg)) = {[''000000Z.json.gz''], [''000005Z.json.gz'']} \<and>
           download_keys (trace w3) =
             download_keys (trace w) @ [S3_PREFIX @ ''000000Z.json.gz'', S3_PREFIX @ ''000005Z.json.gz'']"
  using assms by (rule localizer_two_tokens)

theorem two_objects_two_files_witness:
  "\<exists>w3. prepare_data example_cfg s1_ok world_two_objects = (Inr ''OK'', w3) \<and>
         entries_below w3 [''data'', ''day=20231101''] = {[''000000Z.json.gz''], [''000005Z.json.gz'']} \<and>
         files_below w3 [''data'', ''day=20231101''] = {[''000000Z.json.gz''], [''000005Z.json.gz'']}"
proof -
  have w: "wf_fs (fs world_two_objects)"
    by (simp add: example_worlds wf_stale_fs)
  have r: "fst (ensure_empty_dir (local_raw_dir_of example_cfg) world_two_objects) = Inr ()"
    unfolding example_dir by (rule stale_reset) (simp_all add: example_worlds)
  from two_objects_two_files[OF example_bucket example_worlds(5) two_objects_listed w example_clean r, of s1_ok]
  show ?thesis
    by (auto simp: example_location example_worlds s1_ok_def)
qed

end
